theory Spec2Isabelle
  imports Complex_Main "HOL-Library.Word"
begin

unbundle bit_operations_syntax

section \<open>Data model of microui\<close>

text \<open>
  The embedding follows \<open>microui.h\<close> and \<open>microui.c\<close>.  A C \<open>int\<close> is modelled by
  \<open>int\<close>.  Where a result of the library depends on what an \<open>int\<close> operation yields
  when the exact value does not fit 32 bits (\<open>intersect_rects\<close>, \<open>compare_zindex\<close>), the
  operation is followed by \<open>wrap32\<close>, the two's-complement value the machine computes;
  elsewhere the model describes the executions in which the intermediate values fit (the
  library keeps coordinates below \<open>0x1000000\<close> for that reason).  \<open>mu_Identifier\<close> is
  \<open>unsigned\<close>, whose arithmetic wraps, and is a 32-bit word.  A pointer into
  \<open>context->containers\<close> is the index of the container, a pointer into
  \<open>context->command_list.items\<close> is the byte offset from the start of the buffer, and
  \<open>NULL\<close> is \<open>None\<close>.  A \<open>mu_stack\<close> is the list of its \<open>idx\<close> live items, bottom first;
  its capacity is checked where the source asserts it.
\<close>

type_synonym mu_Identifier = "32 word"
type_synonym mu_Font = nat
type_synonym byte = "8 word"

text \<open>The value of a 32-bit \<open>int\<close> operation whose exact result is \<open>n\<close>; \<open>is_int32 n\<close> when
  \<open>n\<close> is the value of an \<open>int\<close>.\<close>

definition wrap32 :: "int \<Rightarrow> int" where
  "wrap32 n = (n + 2147483648) mod 4294967296 - 2147483648"

definition is_int32 :: "int \<Rightarrow> bool" where
  "is_int32 n \<longleftrightarrow> - 2147483648 \<le> n \<and> n \<le> 2147483647"

datatype mu_Vector2 = mu_vec2 (vec_x: int) (vec_y: int)

datatype mu_Rectangle = mu_rect (rect_x: int) (rect_y: int) (rect_w: int) (rect_h: int)

datatype mu_Color = Color (red: byte) (green: byte) (blue: byte) (alpha: byte)

definition mu_color :: "int \<Rightarrow> int \<Rightarrow> int \<Rightarrow> int \<Rightarrow> mu_Color" where
  "mu_color r g b a = Color (word_of_int r) (word_of_int g) (word_of_int b) (word_of_int a)"

text \<open>An \<open>expect\<close> that fails aborts the process; a read through \<open>NULL\<close> or outside an
  array has no defined result.  Both are error values of the model.\<close>

datatype mu_error = AssertFailed | InvalidAccess

definition mu_min :: "'a::linorder \<Rightarrow> 'a \<Rightarrow> 'a" where
  "mu_min a b = (if a < b then a else b)"

definition mu_max :: "'a::linorder \<Rightarrow> 'a \<Rightarrow> 'a" where
  "mu_max a b = (if a > b then a else b)"

definition mu_clamp :: "'a::linorder \<Rightarrow> 'a \<Rightarrow> 'a \<Rightarrow> 'a" where
  "mu_clamp v a b = mu_min b (mu_max a v)"

definition MU_CLIP_PART :: int where "MU_CLIP_PART = 1"
definition MU_CLIP_ALL :: int where "MU_CLIP_ALL = 2"

definition MU_COMMAND_JUMP :: int where "MU_COMMAND_JUMP = 1"
definition MU_COMMAND_CLIP :: int where "MU_COMMAND_CLIP = 2"
definition MU_COMMAND_RECT :: int where "MU_COMMAND_RECT = 3"
definition MU_COMMAND_TEXT :: int where "MU_COMMAND_TEXT = 4"
definition MU_COMMAND_ICON :: int where "MU_COMMAND_ICON = 5"

definition MU_RES_ACTIVE :: int where "MU_RES_ACTIVE = 1"
definition MU_RES_SUBMIT :: int where "MU_RES_SUBMIT = 2"
definition MU_RES_CHANGE :: int where "MU_RES_CHANGE = 4"

definition MU_OPT_NOINTERACT :: int where "MU_OPT_NOINTERACT = 4"
definition MU_OPT_HOLDFOCUS :: int where "MU_OPT_HOLDFOCUS = 256"

definition MU_MOUSE_LEFT :: int where "MU_MOUSE_LEFT = 1"

definition MU_KEY_SHIFT :: int where "MU_KEY_SHIFT = 1"
definition MU_KEY_BACKSPACE :: int where "MU_KEY_BACKSPACE = 8"
definition MU_KEY_RETURN :: int where "MU_KEY_RETURN = 16"

definition MU_COMMANDLIST_SIZE :: int where "MU_COMMANDLIST_SIZE = 256 * 1024"
definition MU_ROOTLIST_SIZE :: nat where "MU_ROOTLIST_SIZE = 32"
definition MU_CONTAINERSTACK_SIZE :: nat where "MU_CONTAINERSTACK_SIZE = 32"
definition MU_CLIPSTACK_SIZE :: nat where "MU_CLIPSTACK_SIZE = 32"
definition MU_IDSTACK_SIZE :: nat where "MU_IDSTACK_SIZE = 32"
definition MU_LAYOUTSTACK_SIZE :: nat where "MU_LAYOUTSTACK_SIZE = 16"
definition MU_MAX_WIDTHS :: nat where "MU_MAX_WIDTHS = 16"

record mu_PoolItem =
  p_identifier :: mu_Identifier
  p_last_update :: int

text \<open>A command record: the \<open>{type, size}\<close> header of \<open>mu_BaseCommand\<close> and the member of
  the union that was written last.  \<open>Unset\<close> is a record whose header only has been
  written (\<open>mu_push_command\<close> writes no more).\<close>

datatype mu_Body =
    Unset
  | JumpDst "int option"
  | ClipBody mu_Rectangle
  | RectBody mu_Rectangle mu_Color
  | TextBody mu_Font mu_Vector2 mu_Color "byte list"
  | IconBody mu_Rectangle int mu_Color

datatype mu_Command = Command (cmd_type: int) (cmd_size: int) (cmd_body: mu_Body)

record mu_Layout =
  l_body :: mu_Rectangle
  l_next :: mu_Rectangle
  l_position :: mu_Vector2
  l_size :: mu_Vector2
  l_max :: mu_Vector2
  l_widths :: "int list"
  l_items :: int
  l_item_index :: int
  l_next_row :: int
  l_next_type :: int
  l_indentation :: int

record mu_Container =
  c_head :: "int option"
  c_tail :: "int option"
  c_rectangle :: mu_Rectangle
  c_body :: mu_Rectangle
  c_content_size :: mu_Vector2
  c_scroll :: mu_Vector2
  c_zindex :: int
  c_open :: int

record mu_Style =
  s_font :: mu_Font
  s_size :: mu_Vector2
  s_padding :: int
  s_spacing :: int
  s_indentation :: int
  s_title_height :: int
  s_scrollbar_size :: int
  s_thumb_size :: int
  s_colors :: "mu_Color list"

text \<open>The context.  \<open>command_list\<close> is the content of \<open>command_list.items\<close> (the record
  that starts at each byte offset) and \<open>command_idx\<close> is \<open>command_list.idx\<close>.  The two
  strings \<open>number_edit_buf\<close> and \<open>input_text\<close> are the bytes before the terminating NUL.
  A callback that has not been set is \<open>None\<close>; \<open>text_width\<close> receives the bytes it is to
  measure and the \<open>length\<close> argument.  The \<open>draw_frame\<close> callback is a parameter of the
  functions that call it.\<close>

record mu_Context =
  text_width :: "(mu_Font \<Rightarrow> byte list \<Rightarrow> int \<Rightarrow> int) option"
  text_height :: "(mu_Font \<Rightarrow> int) option"
  style :: mu_Style
  hover :: mu_Identifier
  focus :: mu_Identifier
  last_identifier :: mu_Identifier
  last_rect :: mu_Rectangle
  last_zindex :: int
  updated_focus :: int
  frame :: int
  hover_root :: "nat option"
  next_hover_root :: "nat option"
  scroll_target :: "nat option"
  number_edit_buf :: "byte list"
  number_edit :: mu_Identifier
  command_list :: "int \<Rightarrow> mu_Command option"
  command_idx :: int
  root_list :: "nat list"
  container_stack :: "nat list"
  clip_stack :: "mu_Rectangle list"
  id_stack :: "mu_Identifier list"
  layout_stack :: "mu_Layout list"
  container_pool :: "mu_PoolItem list"
  containers :: "mu_Container list"
  treenode_pool :: "mu_PoolItem list"
  mouse_pos :: mu_Vector2
  last_mouse_pos :: mu_Vector2
  mouse_delta :: mu_Vector2
  scroll_delta :: mu_Vector2
  mouse_down :: int
  mouse_pressed :: int
  key_down :: int
  key_pressed :: int
  input_text :: "byte list"

section \<open>Geometry\<close>

definition expand_rect :: "mu_Rectangle \<Rightarrow> int \<Rightarrow> mu_Rectangle" where
  "expand_rect r n = mu_rect (rect_x r - n) (rect_y r - n) (rect_w r + n * 2) (rect_h r + n * 2)"

definition intersect_rects :: "mu_Rectangle \<Rightarrow> mu_Rectangle \<Rightarrow> mu_Rectangle" where
  "intersect_rects r1 r2 =
    (let x1 = mu_max (rect_x r1) (rect_x r2);
         y1 = mu_max (rect_y r1) (rect_y r2);
         x2 = mu_min (wrap32 (rect_x r1 + rect_w r1)) (wrap32 (rect_x r2 + rect_w r2));
         y2 = mu_min (wrap32 (rect_y r1 + rect_h r1)) (wrap32 (rect_y r2 + rect_h r2));
         x2 = (if x2 < x1 then x1 else x2);
         y2 = (if y2 < y1 then y1 else y2)
     in mu_rect x1 y1 (wrap32 (x2 - x1)) (wrap32 (y2 - y1)))"

text \<open>A rectangle whose fields are \<open>int\<close> values and whose right and bottom edges \<open>x + w\<close>
  and \<open>y + h\<close> are computed without overflow.\<close>

definition rect_fits :: "mu_Rectangle \<Rightarrow> bool" where
  "rect_fits r \<longleftrightarrow>
     is_int32 (rect_x r) \<and> is_int32 (rect_y r) \<and> is_int32 (rect_w r) \<and> is_int32 (rect_h r) \<and>
     is_int32 (rect_x r + rect_w r) \<and> is_int32 (rect_y r + rect_h r)"

definition rect_overlaps_vec2 :: "mu_Rectangle \<Rightarrow> mu_Vector2 \<Rightarrow> bool" where
  "rect_overlaps_vec2 r p \<longleftrightarrow>
     vec_x p \<ge> rect_x r \<and> vec_x p < rect_x r + rect_w r \<and>
     vec_y p \<ge> rect_y r \<and> vec_y p < rect_y r + rect_h r"

text \<open>The point-set of a rectangle: the points \<open>rect_overlaps_vec2\<close> accepts.\<close>

definition points :: "mu_Rectangle \<Rightarrow> mu_Vector2 set" where
  "points r = {p. rect_overlaps_vec2 r p}"

definition unclipped_rect :: mu_Rectangle where
  "unclipped_rect = mu_rect 0 0 0x1000000 0x1000000"

section \<open>Frame driver, identifiers, clipping, pools and input\<close>

fun and_then :: "mu_error + 'a \<Rightarrow> ('a \<Rightarrow> mu_error + 'b) \<Rightarrow> mu_error + 'b" where
  "and_then (Inl e) f = Inl e"
| "and_then (Inr v) f = f v"

definition default_style :: mu_Style where
  "default_style =
    \<lparr> s_font = 0, s_size = mu_vec2 68 10, s_padding = 5, s_spacing = 4, s_indentation = 24,
      s_title_height = 24, s_scrollbar_size = 12, s_thumb_size = 8,
      s_colors =
        [Color 230 230 230 255, Color 25 25 25 255, Color 50 50 50 255, Color 25 25 25 255,
         Color 240 240 240 255, Color 0 0 0 0, Color 75 75 75 255, Color 95 95 95 255,
         Color 115 115 115 255, Color 30 30 30 255, Color 35 35 35 255, Color 40 40 40 255,
         Color 43 43 43 255, Color 30 30 30 255] \<rparr>"

definition zero_container :: mu_Container where
  "zero_container =
    \<lparr> c_head = None, c_tail = None, c_rectangle = mu_rect 0 0 0 0, c_body = mu_rect 0 0 0 0,
      c_content_size = mu_vec2 0 0, c_scroll = mu_vec2 0 0, c_zindex = 0, c_open = 0 \<rparr>"

definition zero_layout :: mu_Layout where
  "zero_layout =
    \<lparr> l_body = mu_rect 0 0 0 0, l_next = mu_rect 0 0 0 0, l_position = mu_vec2 0 0,
      l_size = mu_vec2 0 0, l_max = mu_vec2 0 0, l_widths = replicate MU_MAX_WIDTHS 0,
      l_items = 0, l_item_index = 0, l_next_row = 0, l_next_type = 0, l_indentation = 0 \<rparr>"

definition zero_pool_item :: mu_PoolItem where
  "zero_pool_item = \<lparr> p_identifier = 0, p_last_update = 0 \<rparr>"

text \<open>\<open>mu_init\<close>: the context after \<open>memset(context, 0, sizeof(*context))\<close> and the
  default style.  No command record has been written yet.\<close>

definition mu_init :: mu_Context where
  "mu_init =
    \<lparr> text_width = None, text_height = None, style = default_style,
      hover = 0, focus = 0, last_identifier = 0, last_rect = mu_rect 0 0 0 0,
      last_zindex = 0, updated_focus = 0, frame = 0,
      hover_root = None, next_hover_root = None, scroll_target = None,
      number_edit_buf = [], number_edit = 0,
      command_list = (\<lambda>a. None), command_idx = 0,
      root_list = [], container_stack = [], clip_stack = [], id_stack = [], layout_stack = [],
      container_pool = replicate 48 zero_pool_item,
      containers = replicate 48 zero_container,
      treenode_pool = replicate 48 zero_pool_item,
      mouse_pos = mu_vec2 0 0, last_mouse_pos = mu_vec2 0 0, mouse_delta = mu_vec2 0 0,
      scroll_delta = mu_vec2 0 0, mouse_down = 0, mouse_pressed = 0, key_down = 0,
      key_pressed = 0, input_text = [] \<rparr>"

definition mu_begin :: "mu_Context \<Rightarrow> mu_error + mu_Context" where
  "mu_begin ctx =
    (if text_width ctx = None \<or> text_height ctx = None then Inl AssertFailed
     else Inr (ctx
       \<lparr> command_idx := 0,
         root_list := [],
         scroll_target := None,
         hover_root := next_hover_root ctx,
         next_hover_root := None,
         mouse_delta := mu_vec2 (vec_x (mouse_pos ctx) - vec_x (last_mouse_pos ctx))
                                (vec_y (mouse_pos ctx) - vec_y (last_mouse_pos ctx)),
         frame := frame ctx + 1 \<rparr>))"

definition mu_bring_to_front :: "mu_Context \<Rightarrow> nat \<Rightarrow> mu_Context" where
  "mu_bring_to_front ctx cnt =
    (let z = last_zindex ctx + 1
     in ctx \<lparr> last_zindex := z,
              containers := (containers ctx)[cnt := (containers ctx ! cnt) \<lparr> c_zindex := z \<rparr>] \<rparr>)"

definition sizeof_mu_JumpCommand :: int where
  "sizeof_mu_JumpCommand = 16"

text \<open>\<open>p->jump.dst = d\<close> for a pointer \<open>p\<close> into the command buffer: the record at \<open>p\<close>
  keeps its header, and the member of the union written last is now \<open>jump.dst\<close>.\<close>

definition set_jump_dst ::
  "(int \<Rightarrow> mu_Command option) \<Rightarrow> int option \<Rightarrow> int option \<Rightarrow> mu_error + (int \<Rightarrow> mu_Command option)" where
  "set_jump_dst m p d =
    (case p of
      None \<Rightarrow> Inl InvalidAccess
    | Some a \<Rightarrow>
        (case m a of
          None \<Rightarrow> Inl InvalidAccess
        | Some c \<Rightarrow> Inr (m(a \<mapsto> Command (cmd_type c) (cmd_size c) (JumpDst d)))))"

text \<open>The loop of \<open>mu_end\<close> over the sorted root list.  \<open>prev\<close> is \<open>None\<close> in the first
  iteration (\<open>i == 0\<close>) and the previous container afterwards; the rest of the list is empty
  in the last iteration (\<open>i == n - 1\<close>).  \<open>e\<close> is \<open>command_list.idx\<close>.\<close>

fun set_root_jumps ::
  "mu_Container list \<Rightarrow> int \<Rightarrow> nat option \<Rightarrow> nat list \<Rightarrow> (int \<Rightarrow> mu_Command option)
     \<Rightarrow> mu_error + (int \<Rightarrow> mu_Command option)" where
  "set_root_jumps cs e prev [] m = Inr m"
| "set_root_jumps cs e prev (cnt # rest) m =
    (case c_head (cs ! cnt) of
      None \<Rightarrow> Inl InvalidAccess
    | Some h \<Rightarrow>
        and_then
          (set_jump_dst m (case prev of None \<Rightarrow> Some 0 | Some p \<Rightarrow> c_tail (cs ! p))
             (Some (h + sizeof_mu_JumpCommand)))
          (\<lambda>m1. and_then
             (if rest = [] then set_jump_dst m1 (c_tail (cs ! cnt)) (Some e) else Inr m1)
             (\<lambda>m2. set_root_jumps cs e (Some cnt) rest m2)))"

text \<open>\<open>compare_zindex\<close> on two entries of the root list: the difference of the two
  \<open>zindex\<close>, as 32-bit \<open>int\<close> arithmetic computes it.\<close>

definition compare_zindex :: "mu_Container list \<Rightarrow> nat \<Rightarrow> nat \<Rightarrow> int" where
  "compare_zindex cs a b = wrap32 (c_zindex (cs ! a) - c_zindex (cs ! b))"

text \<open>\<open>qsort\<close> is the C library's.  The model sorts by insertion and asks the comparison
  function \<open>cmp\<close> for every decision, as \<open>qsort\<close> does: an item is placed before the first
  item that \<open>cmp\<close> does not put before it.  Where \<open>cmp\<close> is an order the result is the
  sorted list, which is \<open>qsort\<close>'s result up to the order of items that compare equal.\<close>

fun qsort_insert :: "('a \<Rightarrow> 'a \<Rightarrow> int) \<Rightarrow> 'a \<Rightarrow> 'a list \<Rightarrow> 'a list" where
  "qsort_insert cmp x [] = [x]"
| "qsort_insert cmp x (y # ys) = (if cmp x y \<le> 0 then x # y # ys else y # qsort_insert cmp x ys)"

definition qsort :: "('a \<Rightarrow> 'a \<Rightarrow> int) \<Rightarrow> 'a list \<Rightarrow> 'a list" where
  "qsort cmp xs = foldr (qsort_insert cmp) xs []"

text \<open>\<open>qsort(root_list.items, n, sizeof(mu_Container*), compare_zindex)\<close>.\<close>

definition sort_roots :: "mu_Container list \<Rightarrow> nat list \<Rightarrow> nat list" where
  "sort_roots cs rs = qsort (compare_zindex cs) rs"

definition mu_end :: "mu_Context \<Rightarrow> mu_error + mu_Context" where
  "mu_end ctx =
    (if container_stack ctx \<noteq> [] then Inl AssertFailed
     else if clip_stack ctx \<noteq> [] then Inl AssertFailed
     else if id_stack ctx \<noteq> [] then Inl AssertFailed
     else if layout_stack ctx \<noteq> [] then Inl AssertFailed
     else
       let ctx = (case scroll_target ctx of
                    None \<Rightarrow> ctx
                  | Some t \<Rightarrow>
                      ctx \<lparr> containers := (containers ctx)
                        [t := (containers ctx ! t)
                           \<lparr> c_scroll :=
                               mu_vec2 (vec_x (c_scroll (containers ctx ! t)) + vec_x (scroll_delta ctx))
                                       (vec_y (c_scroll (containers ctx ! t)) + vec_y (scroll_delta ctx)) \<rparr>] \<rparr>);
           ctx = (if updated_focus ctx = 0 then ctx \<lparr> focus := 0 \<rparr> else ctx);
           ctx = ctx \<lparr> updated_focus := 0 \<rparr>;
           ctx = (case next_hover_root ctx of
                    None \<Rightarrow> ctx
                  | Some r \<Rightarrow>
                      if mouse_pressed ctx \<noteq> 0 \<and>
                         c_zindex (containers ctx ! r) < last_zindex ctx \<and>
                         c_zindex (containers ctx ! r) \<ge> 0
                      then mu_bring_to_front ctx r else ctx);
           ctx = ctx \<lparr> key_pressed := 0, input_text := [], mouse_pressed := 0,
                      scroll_delta := mu_vec2 0 0, last_mouse_pos := mouse_pos ctx \<rparr>;
           ctx = ctx \<lparr> root_list := sort_roots (containers ctx) (root_list ctx) \<rparr>
       in and_then
            (set_root_jumps (containers ctx) (command_idx ctx) None (root_list ctx) (command_list ctx))
            (\<lambda>m. Inr (ctx \<lparr> command_list := m \<rparr>)))"

definition mu_set_focus :: "mu_Context \<Rightarrow> mu_Identifier \<Rightarrow> mu_Context" where
  "mu_set_focus ctx ident = ctx \<lparr> focus := ident, updated_focus := 1 \<rparr>"

definition HASH_INITIAL :: mu_Identifier where
  "HASH_INITIAL = 2166136261"

text \<open>\<open>hash\<close>: the loop \<open>while (size--) *hash = (*hash ^ *p++) * 16777619\<close> over the
  \<open>size\<close> bytes at \<open>data\<close>, which are the list.\<close>

fun hash :: "mu_Identifier \<Rightarrow> byte list \<Rightarrow> mu_Identifier" where
  "hash h [] = h"
| "hash h (p # ps) = hash ((h XOR ucast p) * 16777619) ps"

definition mu_get_id :: "mu_Context \<Rightarrow> byte list \<Rightarrow> mu_Identifier \<times> mu_Context" where
  "mu_get_id ctx data =
    (let res = (if length (id_stack ctx) > 0 then last (id_stack ctx) else HASH_INITIAL);
         res = hash res data
     in (res, ctx \<lparr> last_identifier := res \<rparr>))"

text \<open>The identifier as the specification words it: FNV-1a folded over the bytes from a
  seed.\<close>

definition fnv1a :: "mu_Identifier \<Rightarrow> byte list \<Rightarrow> mu_Identifier" where
  "fnv1a seed bs = foldl (\<lambda>h b. (h XOR ucast b) * 16777619) seed bs"

definition mu_push_id :: "mu_Context \<Rightarrow> byte list \<Rightarrow> mu_error + mu_Context" where
  "mu_push_id ctx data =
    (if \<not> length (id_stack ctx) < MU_IDSTACK_SIZE then Inl AssertFailed
     else let (res, ctx) = mu_get_id ctx data
          in Inr (ctx \<lparr> id_stack := id_stack ctx @ [res] \<rparr>))"

definition mu_pop_id :: "mu_Context \<Rightarrow> mu_error + mu_Context" where
  "mu_pop_id ctx =
    (if \<not> length (id_stack ctx) > 0 then Inl AssertFailed
     else Inr (ctx \<lparr> id_stack := butlast (id_stack ctx) \<rparr>))"

definition mu_get_clip_rect :: "mu_Context \<Rightarrow> mu_error + mu_Rectangle" where
  "mu_get_clip_rect ctx =
    (if \<not> length (clip_stack ctx) > 0 then Inl AssertFailed
     else Inr (last (clip_stack ctx)))"

definition mu_push_clip_rect :: "mu_Context \<Rightarrow> mu_Rectangle \<Rightarrow> mu_error + mu_Context" where
  "mu_push_clip_rect ctx r =
    and_then (mu_get_clip_rect ctx) (\<lambda>last_clip.
      if \<not> length (clip_stack ctx) < MU_CLIPSTACK_SIZE then Inl AssertFailed
      else Inr (ctx \<lparr> clip_stack := clip_stack ctx @ [intersect_rects r last_clip] \<rparr>))"

definition mu_pop_clip_rect :: "mu_Context \<Rightarrow> mu_error + mu_Context" where
  "mu_pop_clip_rect ctx =
    (if \<not> length (clip_stack ctx) > 0 then Inl AssertFailed
     else Inr (ctx \<lparr> clip_stack := butlast (clip_stack ctx) \<rparr>))"

definition mu_check_clip :: "mu_Context \<Rightarrow> mu_Rectangle \<Rightarrow> mu_error + int" where
  "mu_check_clip ctx r =
    and_then (mu_get_clip_rect ctx) (\<lambda>cr.
      if rect_x r > rect_x cr + rect_w cr \<or> rect_x r + rect_w r < rect_x cr \<or>
         rect_y r > rect_y cr + rect_h cr \<or> rect_y r + rect_h r < rect_y cr
      then Inr MU_CLIP_ALL
      else if rect_x r \<ge> rect_x cr \<and> rect_x r + rect_w r \<le> rect_x cr + rect_w cr \<and>
              rect_y r \<ge> rect_y cr \<and> rect_y r + rect_h r \<le> rect_y cr + rect_h cr
      then Inr 0
      else Inr MU_CLIP_PART)"

subsection \<open>Pools\<close>

text \<open>The scan of \<open>mu_pool_init\<close>: \<open>i\<close> is the index of the first slot of the list, \<open>n\<close>
  and \<open>f\<close> are the loop's variables.  The list is the \<open>length\<close> slots at \<open>items\<close>.\<close>

fun pool_oldest :: "mu_PoolItem list \<Rightarrow> int \<Rightarrow> int \<Rightarrow> int \<Rightarrow> int" where
  "pool_oldest [] i n f = n"
| "pool_oldest (it # its) i n f =
    (if p_last_update it < f then pool_oldest its (i + 1) i (p_last_update it)
     else pool_oldest its (i + 1) n f)"

definition mu_pool_update :: "mu_Context \<Rightarrow> mu_PoolItem list \<Rightarrow> int \<Rightarrow> mu_PoolItem list" where
  "mu_pool_update ctx items idx =
    items[nat idx := (items ! nat idx) \<lparr> p_last_update := frame ctx \<rparr>]"

definition mu_pool_init ::
  "mu_Context \<Rightarrow> mu_PoolItem list \<Rightarrow> mu_Identifier \<Rightarrow> mu_error + (int \<times> mu_PoolItem list)" where
  "mu_pool_init ctx items ident =
    (let n = pool_oldest items 0 (- 1) (frame ctx)
     in if \<not> n > - 1 then Inl AssertFailed
        else let items = items[nat n := (items ! nat n) \<lparr> p_identifier := ident \<rparr>]
             in Inr (n, mu_pool_update ctx items n))"

fun pool_find :: "mu_PoolItem list \<Rightarrow> int \<Rightarrow> mu_Identifier \<Rightarrow> int" where
  "pool_find [] i ident = - 1"
| "pool_find (it # its) i ident =
    (if p_identifier it = ident then i else pool_find its (i + 1) ident)"

definition mu_pool_get :: "mu_Context \<Rightarrow> mu_PoolItem list \<Rightarrow> mu_Identifier \<Rightarrow> int" where
  "mu_pool_get ctx items ident = pool_find items 0 ident"

subsection \<open>Input handlers\<close>

definition mu_input_mousemove :: "mu_Context \<Rightarrow> int \<Rightarrow> int \<Rightarrow> mu_Context" where
  "mu_input_mousemove ctx x y = ctx \<lparr> mouse_pos := mu_vec2 x y \<rparr>"

definition mu_input_mousedown :: "mu_Context \<Rightarrow> int \<Rightarrow> int \<Rightarrow> int \<Rightarrow> mu_Context" where
  "mu_input_mousedown ctx x y btn =
    (let ctx = mu_input_mousemove ctx x y;
         ctx = ctx \<lparr> mouse_down := mouse_down ctx OR btn \<rparr>
     in ctx \<lparr> mouse_pressed := mouse_pressed ctx OR btn \<rparr>)"

definition mu_input_mouseup :: "mu_Context \<Rightarrow> int \<Rightarrow> int \<Rightarrow> int \<Rightarrow> mu_Context" where
  "mu_input_mouseup ctx x y btn =
    (let ctx = mu_input_mousemove ctx x y
     in ctx \<lparr> mouse_down := mouse_down ctx AND NOT btn \<rparr>)"

section \<open>Command list\<close>

definition MU_COLOR_TEXT :: int where "MU_COLOR_TEXT = 0"
definition MU_COLOR_BORDER :: int where "MU_COLOR_BORDER = 1"
definition MU_COLOR_WINDOWBG :: int where "MU_COLOR_WINDOWBG = 2"
definition MU_COLOR_TITLEBG :: int where "MU_COLOR_TITLEBG = 3"
definition MU_COLOR_TITLETEXT :: int where "MU_COLOR_TITLETEXT = 4"
definition MU_COLOR_PANELBG :: int where "MU_COLOR_PANELBG = 5"
definition MU_COLOR_BUTTON :: int where "MU_COLOR_BUTTON = 6"
definition MU_COLOR_BASE :: int where "MU_COLOR_BASE = 9"
definition MU_COLOR_SCROLLBASE :: int where "MU_COLOR_SCROLLBASE = 12"
definition MU_COLOR_SCROLLTHUMB :: int where "MU_COLOR_SCROLLTHUMB = 13"

definition MU_OPT_ALIGNCENTER :: int where "MU_OPT_ALIGNCENTER = 1"
definition MU_OPT_ALIGNRIGHT :: int where "MU_OPT_ALIGNRIGHT = 2"
definition MU_OPT_NOFRAME :: int where "MU_OPT_NOFRAME = 8"

text \<open>The sizes of the command structures, as an LP64 compiler lays them out.  No theorem
  below depends on the values.\<close>

definition sizeof_mu_ClipCommand :: int where "sizeof_mu_ClipCommand = 24"
definition sizeof_mu_RectCommand :: int where "sizeof_mu_RectCommand = 28"
definition sizeof_mu_TextCommand :: int where "sizeof_mu_TextCommand = 32"
definition sizeof_mu_IconCommand :: int where "sizeof_mu_IconCommand = 32"

text \<open>A record written at offset \<open>a\<close> occupies the bytes from \<open>a\<close> up to \<open>a + size\<close>: a
  record left there by an earlier frame that started inside them is gone.\<close>

definition write_command ::
  "(int \<Rightarrow> mu_Command option) \<Rightarrow> int \<Rightarrow> mu_Command \<Rightarrow> (int \<Rightarrow> mu_Command option)" where
  "write_command m a c =
    (\<lambda>b. if b = a then Some c else if a < b \<and> b < a + cmd_size c then None else m b)"

definition set_body ::
  "(int \<Rightarrow> mu_Command option) \<Rightarrow> int \<Rightarrow> mu_Body \<Rightarrow> (int \<Rightarrow> mu_Command option)" where
  "set_body m a b =
    (case m a of None \<Rightarrow> m | Some c \<Rightarrow> m(a \<mapsto> Command (cmd_type c) (cmd_size c) b))"

definition mu_push_command :: "mu_Context \<Rightarrow> int \<Rightarrow> int \<Rightarrow> mu_error + (int \<times> mu_Context)" where
  "mu_push_command ctx ty sz =
    (if \<not> command_idx ctx + sz < MU_COMMANDLIST_SIZE then Inl AssertFailed
     else Inr (command_idx ctx,
               ctx \<lparr> command_list :=
                        write_command (command_list ctx) (command_idx ctx) (Command ty sz Unset),
                      command_idx := command_idx ctx + sz \<rparr>))"

text \<open>The loop of \<open>mu_next_command\<close>: \<open>m\<close> is the buffer, \<open>e\<close> is \<open>command_list.idx\<close>.  It may
  follow jumps for ever, so it is a partial function: \<open>None\<close> is a loop that does not
  end, \<open>Some (Inl InvalidAccess)\<close> a read through a pointer that addresses no record.\<close>

partial_function (option) next_command_loop ::
  "(int \<Rightarrow> mu_Command option) \<Rightarrow> int \<Rightarrow> int option \<Rightarrow> (mu_error + int \<times> int option) option" where
  "next_command_loop m e cmd =
    (if cmd = Some e then Some (Inr (0, cmd))
     else case cmd of
       None \<Rightarrow> Some (Inl InvalidAccess)
     | Some a \<Rightarrow>
         (case m a of
           None \<Rightarrow> Some (Inl InvalidAccess)
         | Some c \<Rightarrow>
             if cmd_type c \<noteq> MU_COMMAND_JUMP then Some (Inr (1, cmd))
             else (case cmd_body c of
                     JumpDst d \<Rightarrow> next_command_loop m e d
                   | _ \<Rightarrow> Some (Inl InvalidAccess))))"

definition mu_next_command ::
  "mu_Context \<Rightarrow> int option \<Rightarrow> (mu_error + int \<times> int option) option" where
  "mu_next_command ctx cmd =
    (case cmd of
      Some a \<Rightarrow>
        (case command_list ctx a of
          None \<Rightarrow> Some (Inl InvalidAccess)
        | Some c \<Rightarrow> next_command_loop (command_list ctx) (command_idx ctx) (Some (a + cmd_size c)))
    | None \<Rightarrow> next_command_loop (command_list ctx) (command_idx ctx) (Some 0))"

text \<open>The client's loop \<open>while (mu_next_command(context, &cmd)) ...\<close>: the offsets of the
  records it is given, in order, from the cursor \<open>cmd\<close>.\<close>

partial_function (option) commands_from ::
  "mu_Context \<Rightarrow> int option \<Rightarrow> (mu_error + int list) option" where
  "commands_from ctx cmd =
    Option.bind (mu_next_command ctx cmd) (\<lambda>res.
      case res of
        Inl e \<Rightarrow> Some (Inl e)
      | Inr (r, cmd') \<Rightarrow>
          if r = 0 then Some (Inr [])
          else (case cmd' of
                  None \<Rightarrow> Some (Inl InvalidAccess)
                | Some a \<Rightarrow>
                    Option.bind (commands_from ctx cmd') (\<lambda>rest.
                      case rest of
                        Inl e \<Rightarrow> Some (Inl e)
                      | Inr as \<Rightarrow> Some (Inr (a # as)))))"

definition push_jump :: "mu_Context \<Rightarrow> int option \<Rightarrow> mu_error + (int \<times> mu_Context)" where
  "push_jump ctx dst =
    and_then (mu_push_command ctx MU_COMMAND_JUMP sizeof_mu_JumpCommand) (\<lambda>(a, ctx).
      Inr (a, ctx \<lparr> command_list := set_body (command_list ctx) a (JumpDst dst) \<rparr>))"

definition mu_set_clip :: "mu_Context \<Rightarrow> mu_Rectangle \<Rightarrow> mu_error + mu_Context" where
  "mu_set_clip ctx r =
    and_then (mu_push_command ctx MU_COMMAND_CLIP sizeof_mu_ClipCommand) (\<lambda>(a, ctx).
      Inr (ctx \<lparr> command_list := set_body (command_list ctx) a (ClipBody r) \<rparr>))"

definition mu_draw_rect :: "mu_Context \<Rightarrow> mu_Rectangle \<Rightarrow> mu_Color \<Rightarrow> mu_error + mu_Context" where
  "mu_draw_rect ctx r color =
    and_then (mu_get_clip_rect ctx) (\<lambda>cr.
      let r = intersect_rects r cr
      in if rect_w r > 0 \<and> rect_h r > 0
         then and_then (mu_push_command ctx MU_COMMAND_RECT sizeof_mu_RectCommand) (\<lambda>(a, ctx).
                Inr (ctx \<lparr> command_list := set_body (command_list ctx) a (RectBody r color) \<rparr>))
         else Inr ctx)"

definition mu_draw_box :: "mu_Context \<Rightarrow> mu_Rectangle \<Rightarrow> mu_Color \<Rightarrow> mu_error + mu_Context" where
  "mu_draw_box ctx r color =
    and_then (mu_draw_rect ctx (mu_rect (rect_x r + 1) (rect_y r) (rect_w r - 2) 1) color) (\<lambda>ctx.
    and_then (mu_draw_rect ctx (mu_rect (rect_x r + 1) (rect_y r + rect_h r - 1) (rect_w r - 2) 1) color) (\<lambda>ctx.
    and_then (mu_draw_rect ctx (mu_rect (rect_x r) (rect_y r) 1 (rect_h r)) color) (\<lambda>ctx.
    mu_draw_rect ctx (mu_rect (rect_x r + rect_w r - 1) (rect_y r) 1 (rect_h r)) color)))"

text \<open>A call of the \<open>text_width\<close> or \<open>text_height\<close> callback; a callback that is not set is
  a call through \<open>NULL\<close>.\<close>

definition call_text_width :: "mu_Context \<Rightarrow> mu_Font \<Rightarrow> byte list \<Rightarrow> int \<Rightarrow> mu_error + int" where
  "call_text_width ctx font str len =
    (case text_width ctx of None \<Rightarrow> Inl InvalidAccess | Some f \<Rightarrow> Inr (f font str len))"

definition call_text_height :: "mu_Context \<Rightarrow> mu_Font \<Rightarrow> mu_error + int" where
  "call_text_height ctx font =
    (case text_height ctx of None \<Rightarrow> Inl InvalidAccess | Some f \<Rightarrow> Inr (f font))"

text \<open>\<open>mu_draw_text\<close>: \<open>str\<close> is the string from the pointer up to its NUL, \<open>len\<close> the
  \<open>length\<close> argument (negative: the whole string).\<close>

definition mu_draw_text ::
  "mu_Context \<Rightarrow> mu_Font \<Rightarrow> byte list \<Rightarrow> int \<Rightarrow> mu_Vector2 \<Rightarrow> mu_Color \<Rightarrow> mu_error + mu_Context" where
  "mu_draw_text ctx font str len pos color =
    and_then (call_text_width ctx font str len) (\<lambda>tw.
    and_then (call_text_height ctx font) (\<lambda>th.
    let r = mu_rect (vec_x pos) (vec_y pos) tw th
    in and_then (mu_check_clip ctx r) (\<lambda>clipped.
       if clipped = MU_CLIP_ALL then Inr ctx
       else
         and_then (if clipped = MU_CLIP_PART
                   then and_then (mu_get_clip_rect ctx) (mu_set_clip ctx) else Inr ctx) (\<lambda>ctx.
         let len = (if len < 0 then int (length str) else len)
         in if nat len > length str then Inl InvalidAccess
            else
              and_then (mu_push_command ctx MU_COMMAND_TEXT (sizeof_mu_TextCommand + len)) (\<lambda>(a, ctx).
              let ctx = ctx \<lparr> command_list :=
                          set_body (command_list ctx) a (TextBody font pos color (take (nat len) str)) \<rparr>
              in if clipped \<noteq> 0 then mu_set_clip ctx unclipped_rect else Inr ctx)))))"

definition mu_draw_icon ::
  "mu_Context \<Rightarrow> int \<Rightarrow> mu_Rectangle \<Rightarrow> mu_Color \<Rightarrow> mu_error + mu_Context" where
  "mu_draw_icon ctx icon r color =
    and_then (mu_check_clip ctx r) (\<lambda>clipped.
      if clipped = MU_CLIP_ALL then Inr ctx
      else
        and_then (if clipped = MU_CLIP_PART
                  then and_then (mu_get_clip_rect ctx) (mu_set_clip ctx) else Inr ctx) (\<lambda>ctx.
        and_then (mu_push_command ctx MU_COMMAND_ICON sizeof_mu_IconCommand) (\<lambda>(a, ctx).
        let ctx = ctx \<lparr> command_list := set_body (command_list ctx) a (IconBody r icon color) \<rparr>
        in if clipped \<noteq> 0 then mu_set_clip ctx unclipped_rect else Inr ctx)))"

text \<open>\<open>style->colors[colorid]\<close>; an index outside the palette reads outside the array.\<close>

definition style_color :: "mu_Context \<Rightarrow> int \<Rightarrow> mu_error + mu_Color" where
  "style_color ctx colorid =
    (if 0 \<le> colorid \<and> nat colorid < length (s_colors (style ctx))
     then Inr (s_colors (style ctx) ! nat colorid) else Inl InvalidAccess)"

text \<open>The default \<open>draw_frame\<close>, which \<open>mu_init\<close> installs as the \<open>draw_frame\<close> callback.\<close>

definition draw_frame :: "mu_Context \<Rightarrow> mu_Rectangle \<Rightarrow> int \<Rightarrow> mu_error + mu_Context" where
  "draw_frame ctx r colorid =
    and_then (style_color ctx colorid) (\<lambda>color.
    and_then (mu_draw_rect ctx r color) (\<lambda>ctx.
      if colorid = MU_COLOR_SCROLLBASE \<or> colorid = MU_COLOR_SCROLLTHUMB \<or>
         colorid = MU_COLOR_TITLEBG
      then Inr ctx
      else and_then (style_color ctx MU_COLOR_BORDER) (\<lambda>border.
             if alpha border \<noteq> 0 then mu_draw_box ctx (expand_rect r 1) border else Inr ctx)))"

text \<open>Integer division of C: the quotient is truncated towards zero.\<close>

definition c_div :: "int \<Rightarrow> int \<Rightarrow> int" where
  "c_div a b = sgn a * sgn b * (\<bar>a\<bar> div \<bar>b\<bar>)"

section \<open>Layout\<close>

definition RELATIVE :: int where "RELATIVE = 1"
definition ABSOLUTE :: int where "ABSOLUTE = 2"

text \<open>\<open>get_layout\<close> returns a pointer to the top of the layout stack (with an empty stack
  it addresses \<open>items[-1]\<close>); \<open>set_layout\<close> is a write through that pointer.\<close>

definition get_layout :: "mu_Context \<Rightarrow> mu_error + mu_Layout" where
  "get_layout ctx =
    (if layout_stack ctx = [] then Inl InvalidAccess else Inr (last (layout_stack ctx)))"

definition set_layout :: "mu_Context \<Rightarrow> mu_Layout \<Rightarrow> mu_Context" where
  "set_layout ctx layout = ctx \<lparr> layout_stack := butlast (layout_stack ctx) @ [layout] \<rparr>"

text \<open>\<open>mu_layout_row\<close>: \<open>widths\<close> is \<open>None\<close> for a \<open>NULL\<close> pointer, else the array it points
  to, of which \<open>memcpy\<close> copies the first \<open>items\<close> entries.\<close>

definition mu_layout_row ::
  "mu_Context \<Rightarrow> int \<Rightarrow> int list option \<Rightarrow> int \<Rightarrow> mu_error + mu_Context" where
  "mu_layout_row ctx items widths height =
    and_then (get_layout ctx) (\<lambda>layout.
    and_then
      (case widths of
         None \<Rightarrow> Inr layout
       | Some ws \<Rightarrow>
           if \<not> items \<le> int MU_MAX_WIDTHS then Inl AssertFailed
           else if items < 0 \<or> nat items > length ws then Inl InvalidAccess
           else Inr (layout \<lparr> l_widths := take (nat items) ws @ drop (nat items) (l_widths layout) \<rparr>))
      (\<lambda>layout.
         Inr (set_layout ctx
           (layout \<lparr> l_items := items,
                     l_position := mu_vec2 (l_indentation layout) (l_next_row layout),
                     l_size := mu_vec2 (vec_x (l_size layout)) height,
                     l_item_index := 0 \<rparr>))))"

definition push_layout :: "mu_Context \<Rightarrow> mu_Rectangle \<Rightarrow> mu_Vector2 \<Rightarrow> mu_error + mu_Context" where
  "push_layout ctx body scroll =
    (let layout = zero_layout
           \<lparr> l_body := mu_rect (rect_x body - vec_x scroll) (rect_y body - vec_y scroll)
                               (rect_w body) (rect_h body),
             l_max := mu_vec2 (- 0x1000000) (- 0x1000000) \<rparr>
     in if \<not> length (layout_stack ctx) < MU_LAYOUTSTACK_SIZE then Inl AssertFailed
        else mu_layout_row (ctx \<lparr> layout_stack := layout_stack ctx @ [layout] \<rparr>) 1 (Some [0]) 0)"

definition mu_layout_width :: "mu_Context \<Rightarrow> int \<Rightarrow> mu_error + mu_Context" where
  "mu_layout_width ctx width =
    and_then (get_layout ctx) (\<lambda>layout.
      Inr (set_layout ctx (layout \<lparr> l_size := mu_vec2 width (vec_y (l_size layout)) \<rparr>)))"

definition mu_layout_height :: "mu_Context \<Rightarrow> int \<Rightarrow> mu_error + mu_Context" where
  "mu_layout_height ctx height =
    and_then (get_layout ctx) (\<lambda>layout.
      Inr (set_layout ctx (layout \<lparr> l_size := mu_vec2 (vec_x (l_size layout)) height \<rparr>)))"

definition mu_layout_set_next :: "mu_Context \<Rightarrow> mu_Rectangle \<Rightarrow> int \<Rightarrow> mu_error + mu_Context" where
  "mu_layout_set_next ctx r relative =
    and_then (get_layout ctx) (\<lambda>layout.
      Inr (set_layout ctx
        (layout \<lparr> l_next := r, l_next_type := (if relative \<noteq> 0 then RELATIVE else ABSOLUTE) \<rparr>)))"

text \<open>The end of \<open>mu_layout_next\<close>, from \<open>/* update position */\<close>, for the rectangle \<open>res\<close>
  that is still relative to the body.\<close>

definition layout_place ::
  "mu_Context \<Rightarrow> mu_Layout \<Rightarrow> mu_Rectangle \<Rightarrow> mu_Rectangle \<times> mu_Context" where
  "layout_place ctx layout res =
    (let layout = layout
           \<lparr> l_position := mu_vec2 (vec_x (l_position layout) + (rect_w res + s_spacing (style ctx)))
                                   (vec_y (l_position layout)) \<rparr>;
         layout = layout
           \<lparr> l_next_row := mu_max (l_next_row layout) (rect_y res + rect_h res + s_spacing (style ctx)) \<rparr>;
         res = mu_rect (rect_x res + rect_x (l_body layout)) (rect_y res + rect_y (l_body layout))
                 (rect_w res) (rect_h res);
         layout = layout
           \<lparr> l_max := mu_vec2 (mu_max (vec_x (l_max layout)) (rect_x res + rect_w res))
                              (mu_max (vec_y (l_max layout)) (rect_y res + rect_h res)) \<rparr>
     in (res, (set_layout ctx layout) \<lparr> last_rect := res \<rparr>))"

definition mu_layout_next :: "mu_Context \<Rightarrow> mu_error + (mu_Rectangle \<times> mu_Context)" where
  "mu_layout_next ctx =
    and_then (get_layout ctx) (\<lambda>layout.
      if l_next_type layout \<noteq> 0 then
        (let ty = l_next_type layout;
             layout = layout \<lparr> l_next_type := 0 \<rparr>;
             res = l_next layout
         in if ty = ABSOLUTE then Inr (res, (set_layout ctx layout) \<lparr> last_rect := res \<rparr>)
            else Inr (layout_place ctx layout res))
      else
        and_then (if l_item_index layout = l_items layout
                  then mu_layout_row ctx (l_items layout) None (vec_y (l_size layout))
                  else Inr ctx) (\<lambda>ctx.
        and_then (get_layout ctx) (\<lambda>layout.
        and_then (if l_items layout > 0
                  then (if 0 \<le> l_item_index layout \<and>
                           nat (l_item_index layout) < length (l_widths layout)
                        then Inr (l_widths layout ! nat (l_item_index layout))
                        else Inl InvalidAccess)
                  else Inr (vec_x (l_size layout))) (\<lambda>w.
        let x = vec_x (l_position layout);
            y = vec_y (l_position layout);
            h = vec_y (l_size layout);
            w = (if w = 0 then vec_x (s_size (style ctx)) + s_padding (style ctx) * 2 else w);
            h = (if h = 0 then vec_y (s_size (style ctx)) + s_padding (style ctx) * 2 else h);
            w = (if w < 0 then w + (rect_w (l_body layout) - x + 1) else w);
            h = (if h < 0 then h + (rect_h (l_body layout) - y + 1) else h);
            layout = layout \<lparr> l_item_index := l_item_index layout + 1 \<rparr>
        in Inr (layout_place ctx layout (mu_rect x y w h))))))"

definition mu_layout_begin_column :: "mu_Context \<Rightarrow> mu_error + mu_Context" where
  "mu_layout_begin_column ctx =
    and_then (mu_layout_next ctx) (\<lambda>(r, ctx). push_layout ctx r (mu_vec2 0 0))"

definition mu_layout_end_column :: "mu_Context \<Rightarrow> mu_error + mu_Context" where
  "mu_layout_end_column ctx =
    and_then (get_layout ctx) (\<lambda>b.
      if \<not> length (layout_stack ctx) > 0 then Inl AssertFailed
      else
        let ctx = ctx \<lparr> layout_stack := butlast (layout_stack ctx) \<rparr>
        in and_then (get_layout ctx) (\<lambda>a.
             let a = a \<lparr> l_position :=
                        mu_vec2 (mu_max (vec_x (l_position a))
                                   (vec_x (l_position b) + rect_x (l_body b) - rect_x (l_body a)))
                                (vec_y (l_position a)) \<rparr>;
                 a = a \<lparr> l_next_row :=
                        mu_max (l_next_row a) (l_next_row b + rect_y (l_body b) - rect_y (l_body a)) \<rparr>;
                 a = a \<lparr> l_max := mu_vec2 (mu_max (vec_x (l_max a)) (vec_x (l_max b)))
                                         (mu_max (vec_y (l_max a)) (vec_y (l_max b))) \<rparr>
             in Inr (set_layout ctx a)))"

section \<open>Controls\<close>

text \<open>The loop of \<open>in_hover_root\<close> over the container stack, from its top: \<open>cs\<close> is the
  array of containers, \<open>hr\<close> is \<open>hover_root\<close>.\<close>

fun hover_root_scan :: "mu_Container list \<Rightarrow> nat option \<Rightarrow> nat list \<Rightarrow> bool" where
  "hover_root_scan cs hr [] = False"
| "hover_root_scan cs hr (c # rest) =
    (if Some c = hr then True
     else if c_head (cs ! c) \<noteq> None then False
     else hover_root_scan cs hr rest)"

definition in_hover_root :: "mu_Context \<Rightarrow> bool" where
  "in_hover_root ctx = hover_root_scan (containers ctx) (hover_root ctx) (rev (container_stack ctx))"

definition mu_mouse_over :: "mu_Context \<Rightarrow> mu_Rectangle \<Rightarrow> mu_error + bool" where
  "mu_mouse_over ctx r =
    (if \<not> rect_overlaps_vec2 r (mouse_pos ctx) then Inr False
     else and_then (mu_get_clip_rect ctx) (\<lambda>cr.
            Inr (rect_overlaps_vec2 cr (mouse_pos ctx) \<and> in_hover_root ctx)))"

definition mu_update_control ::
  "mu_Context \<Rightarrow> mu_Identifier \<Rightarrow> mu_Rectangle \<Rightarrow> int \<Rightarrow> mu_error + mu_Context" where
  "mu_update_control ctx ident r opt =
    and_then (mu_mouse_over ctx r) (\<lambda>mouseover.
      let ctx = (if focus ctx = ident then ctx \<lparr> updated_focus := 1 \<rparr> else ctx)
      in if opt AND MU_OPT_NOINTERACT \<noteq> 0 then Inr ctx
         else
           let ctx = (if mouseover \<and> mouse_down ctx = 0 then ctx \<lparr> hover := ident \<rparr> else ctx);
               ctx = (if focus ctx = ident
                      then (let ctx = (if mouse_pressed ctx \<noteq> 0 \<and> \<not> mouseover
                                       then mu_set_focus ctx 0 else ctx)
                            in if mouse_down ctx = 0 \<and> NOT opt AND MU_OPT_HOLDFOCUS \<noteq> 0
                               then mu_set_focus ctx 0 else ctx)
                      else ctx);
               ctx = (if hover ctx = ident
                      then (if mouse_pressed ctx \<noteq> 0 then mu_set_focus ctx ident
                            else if \<not> mouseover then ctx \<lparr> hover := 0 \<rparr> else ctx)
                      else ctx)
           in Inr ctx)"

text \<open>The functions that draw a frame take the \<open>draw_frame\<close> callback of the context as
  their first argument \<open>df\<close>.\<close>

definition mu_draw_control_frame ::
  "(mu_Context \<Rightarrow> mu_Rectangle \<Rightarrow> int \<Rightarrow> mu_error + mu_Context) \<Rightarrow> mu_Context \<Rightarrow> mu_Identifier
     \<Rightarrow> mu_Rectangle \<Rightarrow> int \<Rightarrow> int \<Rightarrow> mu_error + mu_Context" where
  "mu_draw_control_frame df ctx ident r colorid opt =
    (if opt AND MU_OPT_NOFRAME \<noteq> 0 then Inr ctx
     else df ctx r
            (colorid + (if focus ctx = ident then 2 else if hover ctx = ident then 1 else 0)))"

definition mu_draw_control_text ::
  "mu_Context \<Rightarrow> byte list \<Rightarrow> mu_Rectangle \<Rightarrow> int \<Rightarrow> int \<Rightarrow> mu_error + mu_Context" where
  "mu_draw_control_text ctx str r colorid opt =
    (let font = s_font (style ctx)
     in and_then (call_text_width ctx font str (- 1)) (\<lambda>tw.
        and_then (mu_push_clip_rect ctx r) (\<lambda>ctx.
        and_then (call_text_height ctx font) (\<lambda>th.
        let py = rect_y r + c_div (rect_h r - th) 2;
            px = (if opt AND MU_OPT_ALIGNCENTER \<noteq> 0 then rect_x r + c_div (rect_w r - tw) 2
                  else if opt AND MU_OPT_ALIGNRIGHT \<noteq> 0
                  then rect_x r + rect_w r - tw - s_padding (style ctx)
                  else rect_x r + s_padding (style ctx))
        in and_then (style_color ctx colorid) (\<lambda>color.
           and_then (mu_draw_text ctx font str (- 1) (mu_vec2 px py) color) mu_pop_clip_rect)))))"

text \<open>The loop \<open>while ((buffer[--length] & 0xc0) == 0x80 && length > 0);\<close> of the Backspace
  branch: the argument is \<open>length\<close> before the loop, which the caller has checked to be
  positive, the result is \<open>length\<close> after it.\<close>

fun utf8_backspace :: "byte list \<Rightarrow> nat \<Rightarrow> nat" where
  "utf8_backspace buffer 0 = 0"
| "utf8_backspace buffer (Suc l) =
    (if (buffer ! l) AND 0xc0 = 0x80 \<and> l > 0 then utf8_backspace buffer l else l)"

text \<open>\<open>mu_textbox_raw\<close>: \<open>buffer\<close> is the string in the caller's buffer (the bytes before
  its NUL) and is returned with the result flags and the context.\<close>

definition mu_textbox_raw ::
  "(mu_Context \<Rightarrow> mu_Rectangle \<Rightarrow> int \<Rightarrow> mu_error + mu_Context) \<Rightarrow> mu_Context \<Rightarrow> byte list \<Rightarrow> int
     \<Rightarrow> mu_Identifier \<Rightarrow> mu_Rectangle \<Rightarrow> int \<Rightarrow> mu_error + (int \<times> byte list \<times> mu_Context)" where
  "mu_textbox_raw df ctx buffer bufsz ident r opt =
    and_then (mu_update_control ctx ident r (opt OR MU_OPT_HOLDFOCUS)) (\<lambda>ctx.
    let (res, buffer, ctx) =
      (if focus ctx = ident then
         (let len = int (length buffer);
              n = mu_min (bufsz - len - 1) (int (length (input_text ctx)));
              (res, buffer, len) =
                (if n > 0 then (MU_RES_CHANGE, buffer @ take (nat n) (input_text ctx), len + n)
                 else (0, buffer, len));
              (res, buffer) =
                (if key_pressed ctx AND MU_KEY_BACKSPACE \<noteq> 0 \<and> len > 0
                 then (res OR MU_RES_CHANGE, take (utf8_backspace buffer (nat len)) buffer)
                 else (res, buffer))
          in if key_pressed ctx AND MU_KEY_RETURN \<noteq> 0
             then (res OR MU_RES_SUBMIT, buffer, mu_set_focus ctx 0)
             else (res, buffer, ctx))
       else (0, buffer, ctx))
    in and_then (mu_draw_control_frame df ctx ident r MU_COLOR_BASE opt) (\<lambda>ctx.
       and_then
         (if focus ctx = ident then
            (let font = s_font (style ctx)
             in and_then (style_color ctx MU_COLOR_TEXT) (\<lambda>color.
                and_then (call_text_width ctx font buffer (- 1)) (\<lambda>textw.
                and_then (call_text_height ctx font) (\<lambda>texth.
                let ofx = rect_w r - s_padding (style ctx) - textw - 1;
                    textx = rect_x r + mu_min ofx (s_padding (style ctx));
                    texty = rect_y r + c_div (rect_h r - texth) 2
                in and_then (mu_push_clip_rect ctx r) (\<lambda>ctx.
                   and_then (mu_draw_text ctx font buffer (- 1) (mu_vec2 textx texty) color) (\<lambda>ctx.
                   and_then (mu_draw_rect ctx (mu_rect (textx + textw) texty 1 texth) color)
                     mu_pop_clip_rect))))))
          else mu_draw_control_text ctx buffer r MU_COLOR_TEXT opt)
         (\<lambda>ctx. Inr (res, buffer, ctx))))"

section \<open>Containers\<close>

definition MU_OPT_CLOSED :: int where "MU_OPT_CLOSED = 2048"

definition mu_get_current_container :: "mu_Context \<Rightarrow> mu_error + nat" where
  "mu_get_current_container ctx =
    (if \<not> length (container_stack ctx) > 0 then Inl AssertFailed
     else Inr (last (container_stack ctx)))"

definition pop_container :: "mu_Context \<Rightarrow> mu_error + mu_Context" where
  "pop_container ctx =
    and_then (mu_get_current_container ctx) (\<lambda>cnt.
    and_then (get_layout ctx) (\<lambda>layout.
      let ctx = ctx \<lparr> containers := (containers ctx)
                  [cnt := (containers ctx ! cnt)
                     \<lparr> c_content_size :=
                         mu_vec2 (vec_x (l_max layout) - rect_x (l_body layout))
                                 (vec_y (l_max layout) - rect_y (l_body layout)) \<rparr>] \<rparr>
      in if \<not> length (container_stack ctx) > 0 then Inl AssertFailed
         else
           let ctx = ctx \<lparr> container_stack := butlast (container_stack ctx) \<rparr>
           in if \<not> length (layout_stack ctx) > 0 then Inl AssertFailed
              else mu_pop_id (ctx \<lparr> layout_stack := butlast (layout_stack ctx) \<rparr>)))"

text \<open>\<open>get_container\<close>: the result is the container's index, or \<open>None\<close> for \<open>NULL\<close>.\<close>

definition get_container ::
  "mu_Context \<Rightarrow> mu_Identifier \<Rightarrow> int \<Rightarrow> mu_error + (nat option \<times> mu_Context)" where
  "get_container ctx ident opt =
    (let idx = mu_pool_get ctx (container_pool ctx) ident
     in if idx \<ge> 0 then
          (let ctx = (if c_open (containers ctx ! nat idx) \<noteq> 0 \<or> NOT opt AND MU_OPT_CLOSED \<noteq> 0
                      then ctx \<lparr> container_pool := mu_pool_update ctx (container_pool ctx) idx \<rparr>
                      else ctx)
           in Inr (Some (nat idx), ctx))
        else if opt AND MU_OPT_CLOSED \<noteq> 0 then Inr (None, ctx)
        else
          and_then (mu_pool_init ctx (container_pool ctx) ident) (\<lambda>(idx, pool).
            let ctx = ctx \<lparr> container_pool := pool \<rparr>;
                ctx = ctx \<lparr> containers := (containers ctx)[nat idx := zero_container \<lparr> c_open := 1 \<rparr>] \<rparr>
            in Inr (Some (nat idx), mu_bring_to_front ctx (nat idx))))"

definition begin_root_container :: "mu_Context \<Rightarrow> nat \<Rightarrow> mu_error + mu_Context" where
  "begin_root_container ctx cnt =
    (if \<not> length (container_stack ctx) < MU_CONTAINERSTACK_SIZE then Inl AssertFailed
     else
       let ctx = ctx \<lparr> container_stack := container_stack ctx @ [cnt] \<rparr>
       in if \<not> length (root_list ctx) < MU_ROOTLIST_SIZE then Inl AssertFailed
          else
            let ctx = ctx \<lparr> root_list := root_list ctx @ [cnt] \<rparr>
            in and_then (push_jump ctx None) (\<lambda>(a, ctx).
               let ctx = ctx \<lparr> containers :=
                           (containers ctx)[cnt := (containers ctx ! cnt) \<lparr> c_head := Some a \<rparr>] \<rparr>;
                   ctx = (if rect_overlaps_vec2 (c_rectangle (containers ctx ! cnt)) (mouse_pos ctx) \<and>
                             (case next_hover_root ctx of
                                None \<Rightarrow> True
                              | Some r \<Rightarrow> c_zindex (containers ctx ! cnt) > c_zindex (containers ctx ! r))
                          then ctx \<lparr> next_hover_root := Some cnt \<rparr> else ctx)
               in if \<not> length (clip_stack ctx) < MU_CLIPSTACK_SIZE then Inl AssertFailed
                  else Inr (ctx \<lparr> clip_stack := clip_stack ctx @ [unclipped_rect] \<rparr>)))"

definition end_root_container :: "mu_Context \<Rightarrow> mu_error + mu_Context" where
  "end_root_container ctx =
    and_then (mu_get_current_container ctx) (\<lambda>cnt.
    and_then (push_jump ctx None) (\<lambda>(a, ctx).
      let ctx = ctx \<lparr> containers :=
                  (containers ctx)[cnt := (containers ctx ! cnt) \<lparr> c_tail := Some a \<rparr>] \<rparr>
      in and_then (set_jump_dst (command_list ctx) (c_head (containers ctx ! cnt))
                     (Some (command_idx ctx))) (\<lambda>m.
         and_then (mu_pop_clip_rect (ctx \<lparr> command_list := m \<rparr>)) pop_container)))"

section \<open>Frames\<close>

text \<open>
  What a frame does to the command list, seen as the sequence of the calls that touch it
  or the stacks: every widget and container function of the library reaches the command
  buffer through \<open>mu_push_command\<close> and the root list through \<open>begin_root_container\<close> and
  \<open>end_root_container\<close>.
  \<^item> \<open>Push ty sz body\<close>: \<open>mu_push_command(context, ty, sz)\<close> and the write of the record's
    fields (\<open>mu_set_clip\<close>, \<open>mu_draw_rect\<close>, \<open>mu_draw_text\<close> and \<open>mu_draw_icon\<close> do this);
  \<^item> \<open>BeginRoot cnt\<close> and \<open>EndRoot\<close>: \<open>begin_root_container\<close> and \<open>end_root_container\<close>
    (\<open>mu_begin_window_ex\<close>, \<open>mu_end_window\<close> and the popup functions call them);
  \<^item> \<open>BeginPanel cnt\<close> and \<open>EndPanel\<close>: \<open>push(context->container_stack, cnt)\<close> of
    \<open>mu_begin_panel_ex\<close> and \<open>pop_container\<close> of \<open>mu_end_panel\<close>;
  \<^item> \<open>PushId\<close>, \<open>PopId\<close>, \<open>PushLayout\<close>, \<open>PushClip\<close>, \<open>PopClip\<close>, \<open>BringToFront\<close>: \<open>mu_push_id\<close>,
    \<open>mu_pop_id\<close>, \<open>push_layout\<close>, \<open>mu_push_clip_rect\<close>, \<open>mu_pop_clip_rect\<close>,
    \<open>mu_bring_to_front\<close>.
\<close>

datatype frame_op =
    Push int int mu_Body
  | BeginRoot nat
  | EndRoot
  | BeginPanel nat
  | EndPanel
  | PushId "byte list"
  | PopId
  | PushLayout mu_Rectangle mu_Vector2
  | PushClip mu_Rectangle
  | PopClip
  | BringToFront nat

fun run_op :: "frame_op \<Rightarrow> mu_Context \<Rightarrow> mu_error + mu_Context" where
  "run_op (Push ty sz body) ctx =
     and_then (mu_push_command ctx ty sz) (\<lambda>(a, ctx).
       Inr (ctx \<lparr> command_list := set_body (command_list ctx) a body \<rparr>))"
| "run_op (BeginRoot cnt) ctx = begin_root_container ctx cnt"
| "run_op EndRoot ctx = end_root_container ctx"
| "run_op (BeginPanel cnt) ctx =
     (if \<not> length (container_stack ctx) < MU_CONTAINERSTACK_SIZE then Inl AssertFailed
      else Inr (ctx \<lparr> container_stack := container_stack ctx @ [cnt] \<rparr>))"
| "run_op EndPanel ctx = pop_container ctx"
| "run_op (PushId data) ctx = mu_push_id ctx data"
| "run_op PopId ctx = mu_pop_id ctx"
| "run_op (PushLayout body scroll) ctx = push_layout ctx body scroll"
| "run_op (PushClip r) ctx = mu_push_clip_rect ctx r"
| "run_op PopClip ctx = mu_pop_clip_rect ctx"
| "run_op (BringToFront cnt) ctx = Inr (mu_bring_to_front ctx cnt)"

fun run_frame :: "frame_op list \<Rightarrow> mu_Context \<Rightarrow> mu_error + mu_Context" where
  "run_frame [] ctx = Inr ctx"
| "run_frame (op # ops) ctx = and_then (run_op op ctx) (run_frame ops)"

text \<open>The bookkeeping of a frame, from its operations alone.  \<open>st\<close> is the stack of open
  containers, innermost first, each with the flag "is a root"; \<open>a\<close> is the write cursor.
  \<open>pushes\<close> lists the records pushed, in order: the root container the record belongs to
  (the innermost open root, if any), its offset and the record.\<close>

fun cur_root :: "(nat \<times> bool) list \<Rightarrow> nat option" where
  "cur_root [] = None"
| "cur_root ((c, is_root) # st) = (if is_root then Some c else cur_root st)"

fun pushes :: "frame_op list \<Rightarrow> (nat \<times> bool) list \<Rightarrow> int \<Rightarrow> (nat option \<times> int \<times> mu_Command) list" where
  "pushes [] st a = []"
| "pushes (Push ty sz body # ops) st a = (cur_root st, a, Command ty sz body) # pushes ops st (a + sz)"
| "pushes (BeginRoot c # ops) st a = pushes ops ((c, True) # st) (a + sizeof_mu_JumpCommand)"
| "pushes (EndRoot # ops) st a = pushes ops (tl st) (a + sizeof_mu_JumpCommand)"
| "pushes (BeginPanel c # ops) st a = pushes ops ((c, False) # st) a"
| "pushes (EndPanel # ops) st a = pushes ops (tl st) a"
| "pushes (op # ops) st a = pushes ops st a"

fun roots :: "frame_op list \<Rightarrow> nat list" where
  "roots [] = []"
| "roots (BeginRoot c # ops) = c # roots ops"
| "roots (op # ops) = roots ops"

text \<open>The records pushed inside the root container \<open>c\<close>, by their offsets, in the order of
  their emission.\<close>

definition direct :: "frame_op list \<Rightarrow> nat \<Rightarrow> int list" where
  "direct ops c = map (\<lambda>(r, a, cmd). a) (filter (\<lambda>(r, a, cmd). r = Some c) (pushes ops [] 0))"

text \<open>A frame is well nested when every record is pushed inside a root container, is no
  jump and has a positive size, \<open>EndRoot\<close> closes a root container and \<open>EndPanel\<close> a panel.\<close>

fun well_nested :: "frame_op list \<Rightarrow> (nat \<times> bool) list \<Rightarrow> bool" where
  "well_nested [] st = True"
| "well_nested (Push ty sz body # ops) st =
     (cur_root st \<noteq> None \<and> ty \<noteq> MU_COMMAND_JUMP \<and> sz > 0 \<and> well_nested ops st)"
| "well_nested (BeginRoot c # ops) st = well_nested ops ((c, True) # st)"
| "well_nested (EndRoot # ops) st =
     (case st of (c, True) # st' \<Rightarrow> well_nested ops st' | _ \<Rightarrow> False)"
| "well_nested (BeginPanel c # ops) st = well_nested ops ((c, False) # st)"
| "well_nested (EndPanel # ops) st =
     (case st of (c, False) # st' \<Rightarrow> well_nested ops st' | _ \<Rightarrow> False)"
| "well_nested (op # ops) st = well_nested ops st"

text \<open>A walk of \<open>mu_next_command\<close>'s loop through the buffer \<open>m\<close>: from the cursor \<open>a\<close> it
  returns the records \<open>cs\<close>, examines the records at \<open>fp\<close> and arrives at \<open>b\<close>.\<close>

inductive path ::
  "(int \<Rightarrow> mu_Command option) \<Rightarrow> int \<Rightarrow> int list \<Rightarrow> int list \<Rightarrow> int \<Rightarrow> bool" where
  path_Nil: "path m a [] [] a"
| path_Cmd: "m a = Some c \<Longrightarrow> cmd_type c \<noteq> MU_COMMAND_JUMP \<Longrightarrow>
     path m (a + cmd_size c) cs fp b \<Longrightarrow> path m a (a # cs) (a # fp) b"
| path_Jump: "m a = Some c \<Longrightarrow> cmd_type c = MU_COMMAND_JUMP \<Longrightarrow> cmd_body c = JumpDst (Some d) \<Longrightarrow>
     path m d cs fp b \<Longrightarrow> path m a cs (a # fp) b"

section \<open>Example contexts\<close>

text \<open>A context in which the text box with identifier 5 has the focus and Backspace has
  been pressed: a font of 6 by 12 pixels per byte, no clipping, the mouse away.\<close>

definition textbox_ctx :: mu_Context where
  "textbox_ctx = mu_init
     \<lparr> text_width := Some (\<lambda>font str len. 6 * (if len < 0 then int (length str) else len)),
       text_height := Some (\<lambda>font. 12),
       focus := 5, clip_stack := [unclipped_rect], key_pressed := MU_KEY_BACKSPACE \<rparr>"

section \<open>The invariant of a frame under construction\<close>

text \<open>
  The notions below serve the proof about the command list.  \<open>hs c\<close> and \<open>ts c\<close> are the
  \<open>head\<close> and \<open>tail\<close> pointers of container \<open>c\<close>; \<open>D c\<close> lists the records pushed inside the
  root container \<open>c\<close> so far and \<open>F c\<close> the records a walk through \<open>c\<close> examines.

  \<open>root_ok\<close>: the head of \<open>c\<close> is a jump record, and the walk from the record after it
  returns \<open>D c\<close> and arrives at \<open>tgt\<close>, examining only records between the two.
\<close>

definition heads :: "mu_Context \<Rightarrow> nat \<Rightarrow> int option" where
  "heads ctx c = c_head (containers ctx ! c)"

definition tails :: "mu_Context \<Rightarrow> nat \<Rightarrow> int option" where
  "tails ctx c = c_tail (containers ctx ! c)"

definition is_jump :: "(int \<Rightarrow> mu_Command option) \<Rightarrow> int \<Rightarrow> bool" where
  "is_jump m a \<longleftrightarrow> (\<exists>c. m a = Some c \<and> cmd_type c = MU_COMMAND_JUMP)"

definition root_ok ::
  "(int \<Rightarrow> mu_Command option) \<Rightarrow> (nat \<Rightarrow> int option) \<Rightarrow> (nat \<Rightarrow> int list) \<Rightarrow> (nat \<Rightarrow> int list)
     \<Rightarrow> nat \<Rightarrow> int \<Rightarrow> bool" where
  "root_ok m hs D F c tgt \<longleftrightarrow>
     (\<exists>h. hs c = Some h \<and> 0 \<le> h \<and> is_jump m h \<and>
          path m (h + sizeof_mu_JumpCommand) (D c) (F c) tgt \<and>
          h + sizeof_mu_JumpCommand \<le> tgt \<and>
          (\<forall>x \<in> set (F c). h + sizeof_mu_JumpCommand \<le> x \<and> x < tgt))"

text \<open>The open root containers, innermost first: the walk through the innermost arrives
  at the write cursor, the walk through any other at the head of the next inner one.\<close>

fun open_ok ::
  "(int \<Rightarrow> mu_Command option) \<Rightarrow> (nat \<Rightarrow> int option) \<Rightarrow> (nat \<Rightarrow> int list) \<Rightarrow> (nat \<Rightarrow> int list)
     \<Rightarrow> nat list \<Rightarrow> int \<Rightarrow> bool" where
  "open_ok m hs D F [] tgt = True"
| "open_ok m hs D F (c # cs) tgt =
     (root_ok m hs D F c tgt \<and> (\<exists>h. hs c = Some h \<and> open_ok m hs D F cs h))"

definition closed_ok ::
  "(int \<Rightarrow> mu_Command option) \<Rightarrow> int \<Rightarrow> (nat \<Rightarrow> int option) \<Rightarrow> (nat \<Rightarrow> int option)
     \<Rightarrow> (nat \<Rightarrow> int list) \<Rightarrow> (nat \<Rightarrow> int list) \<Rightarrow> nat \<Rightarrow> bool" where
  "closed_ok m e hs ts D F c \<longleftrightarrow>
     (\<exists>t. ts c = Some t \<and> is_jump m t \<and> t + sizeof_mu_JumpCommand \<le> e \<and> root_ok m hs D F c t)"

definition open_roots :: "(nat \<times> bool) list \<Rightarrow> nat list" where
  "open_roots st = map fst (filter snd st)"

text \<open>\<open>pipe_inv\<close>: the command buffer \<open>m\<close> with write cursor \<open>e\<close>, for the root containers
  \<open>R\<close> begun so far, of which \<open>opn\<close> are open (innermost first).  The heads of the root
  containers and the tails of the closed ones are distinct records; no walk examines a
  tail or the head of an open root container.\<close>

definition pipe_inv ::
  "(int \<Rightarrow> mu_Command option) \<Rightarrow> int \<Rightarrow> (nat \<Rightarrow> int option) \<Rightarrow> (nat \<Rightarrow> int option)
     \<Rightarrow> nat list \<Rightarrow> nat list \<Rightarrow> (nat \<Rightarrow> int list) \<Rightarrow> (nat \<Rightarrow> int list) \<Rightarrow> bool" where
  "pipe_inv m e hs ts R opn D F \<longleftrightarrow>
     0 \<le> e \<and> distinct R \<and> distinct opn \<and> set opn \<subseteq> set R \<and>
     open_ok m hs D F opn e \<and>
     (\<forall>c \<in> set R. c \<notin> set opn \<longrightarrow> closed_ok m e hs ts D F c) \<and>
     (\<forall>c \<in> set R. \<forall>x \<in> set (F c).
        x \<notin> (\<lambda>c. the (ts c)) ` {c \<in> set R. c \<notin> set opn} \<and> x \<notin> (\<lambda>c. the (hs c)) ` set opn) \<and>
     inj_on (\<lambda>c. the (hs c)) (set R) \<and>
     inj_on (\<lambda>c. the (ts c)) {c \<in> set R. c \<notin> set opn} \<and>
     (\<lambda>c. the (hs c)) ` set R \<inter> (\<lambda>c. the (ts c)) ` {c \<in> set R. c \<notin> set opn} = {} \<and>
     (\<forall>c \<in> set R. \<exists>h. hs c = Some h \<and> 0 \<le> h \<and> h + sizeof_mu_JumpCommand \<le> e) \<and>
     (R \<noteq> [] \<longrightarrow> hs (hd R) = Some 0) \<and>
     (R = [] \<longrightarrow> e = 0) \<and>
     (\<forall>c. c \<notin> set R \<longrightarrow> D c = [])"

text \<open>The invariant on a context: \<open>base\<close> is the container stack at the start of the
  frame, \<open>st\<close> the containers opened since and still open, \<open>R\<close> the root containers begun
  in the frame.\<close>

definition frame_inv ::
  "mu_Context \<Rightarrow> nat list \<Rightarrow> (nat \<times> bool) list \<Rightarrow> nat list \<Rightarrow> (nat \<Rightarrow> int list) \<Rightarrow> (nat \<Rightarrow> int list)
     \<Rightarrow> bool" where
  "frame_inv ctx base st R D F \<longleftrightarrow>
     container_stack ctx = base @ rev (map fst st) \<and>
     root_list ctx = R \<and>
     pipe_inv (command_list ctx) (command_idx ctx) (heads ctx) (tails ctx) R (open_roots st) D F"

text \<open>The offsets of the records that the operations \<open>ops\<close> push inside the root container
  \<open>c\<close>, from the open containers \<open>st\<close> and the write cursor \<open>a\<close>.\<close>

definition direct_from :: "frame_op list \<Rightarrow> (nat \<times> bool) list \<Rightarrow> int \<Rightarrow> nat \<Rightarrow> int list" where
  "direct_from ops st a c =
     map (\<lambda>(r, a, cmd). a) (filter (\<lambda>(r, a, cmd). r = Some c) (pushes ops st a))"

section \<open>Frames as the client runs them\<close>

text \<open>Two contexts agree on the command pipeline: the buffer, its write cursor, the root
  list and the \<open>head\<close> and \<open>tail\<close> pointers of the containers.\<close>

definition same_pipe :: "mu_Context \<Rightarrow> mu_Context \<Rightarrow> bool" where
  "same_pipe ctx ctx' \<longleftrightarrow>
     command_list ctx' = command_list ctx \<and> command_idx ctx' = command_idx ctx \<and>
     root_list ctx' = root_list ctx \<and> heads ctx' = heads ctx \<and> tails ctx' = tails ctx \<and>
     length (containers ctx') = length (containers ctx)"

text \<open>\<open>process_frame\<close> of the example application: \<open>mu_begin\<close>, the calls of the frame,
  \<open>mu_end\<close>.\<close>

definition process_frame :: "frame_op list \<Rightarrow> mu_Context \<Rightarrow> mu_error + mu_Context" where
  "process_frame ops ctx = and_then (mu_begin ctx) (\<lambda>ctx. and_then (run_frame ops ctx) mu_end)"

text \<open>A context after \<open>mu_init\<close> with the two text callbacks set (a font of 6 by 12
  pixels per byte).\<close>

definition window_ctx :: mu_Context where
  "window_ctx = mu_init
     \<lparr> text_width := Some (\<lambda>font str len. 6 * (if len < 0 then int (length str) else len)),
       text_height := Some (\<lambda>font. 12) \<rparr>"

text \<open>A frame with two windows, the containers 0 and 1, declared in that order; container
  0 is brought to the front between them.  Each window pushes its identifier, opens its
  root container and its layout, draws, and closes.\<close>

definition two_windows :: "frame_op list" where
  "two_windows =
     [PushId [1], BeginRoot 0, PushLayout (mu_rect 0 0 100 100) (mu_vec2 0 0),
      Push MU_COMMAND_RECT sizeof_mu_RectCommand (RectBody (mu_rect 0 0 100 100) (mu_color 0 0 0 255)),
      EndRoot,
      BringToFront 0,
      PushId [2], BeginRoot 1, PushLayout (mu_rect 50 50 100 100) (mu_vec2 0 0),
      Push MU_COMMAND_RECT sizeof_mu_RectCommand (RectBody (mu_rect 50 50 100 100) (mu_color 0 0 0 255)),
      Push MU_COMMAND_CLIP sizeof_mu_ClipCommand (ClipBody unclipped_rect),
      EndRoot]"

text \<open>A frame with one window, and a call of \<open>mu_set_clip\<close> after the window has been
  closed.\<close>

definition stray_clip :: "frame_op list" where
  "stray_clip =
     [PushId [1], BeginRoot 0, PushLayout (mu_rect 0 0 100 100) (mu_vec2 0 0),
      Push MU_COMMAND_RECT sizeof_mu_RectCommand (RectBody (mu_rect 0 0 100 100) (mu_color 0 0 0 255)),
      EndRoot,
      Push MU_COMMAND_CLIP sizeof_mu_ClipCommand (ClipBody unclipped_rect)]"

text \<open>Two windows whose containers have the \<open>zindex\<close> 2000000000 and -2000000000 at the
  start of the frame, and a frame that declares them in that order and leaves the
  \<open>zindex\<close> alone.\<close>

definition far_apart_ctx :: mu_Context where
  "far_apart_ctx = window_ctx
     \<lparr> containers := (containers window_ctx)
         [0 := zero_container \<lparr> c_zindex := 2000000000 \<rparr>,
          1 := zero_container \<lparr> c_zindex := - 2000000000 \<rparr>] \<rparr>"

definition plain_windows :: "frame_op list" where
  "plain_windows =
     [PushId [1], BeginRoot 0, PushLayout (mu_rect 0 0 100 100) (mu_vec2 0 0),
      Push MU_COMMAND_RECT sizeof_mu_RectCommand (RectBody (mu_rect 0 0 100 100) (mu_color 0 0 0 255)),
      EndRoot,
      PushId [2], BeginRoot 1, PushLayout (mu_rect 50 50 100 100) (mu_vec2 0 0),
      Push MU_COMMAND_RECT sizeof_mu_RectCommand (RectBody (mu_rect 50 50 100 100) (mu_color 0 0 0 255)),
      EndRoot]"

section \<open>Geometry and clipping\<close>

lemma wrap32_id: "is_int32 n \<Longrightarrow> wrap32 n = n"
  by (simp add: wrap32_def is_int32_def)

text \<open>Evaluation of \<open>wrap32\<close> at a literal.\<close>

lemma wrap32_literal:
  "wrap32 0 = 0" "wrap32 1 = 1"
  "wrap32 (numeral k) = (numeral k + 2147483648) mod 4294967296 - 2147483648"
  "wrap32 (- numeral k) = (- numeral k + 2147483648) mod 4294967296 - 2147483648"
  by (simp_all add: wrap32_def)

text \<open>\<open>intersect_rects\<close> at two given rectangles.\<close>

lemma intersect_rects_literal:
  "intersect_rects (mu_rect a b c d) (mu_rect a' b' c' d') =
    mu_rect (mu_max a a') (mu_max b b')
      (wrap32 (mu_max (mu_min (wrap32 (a + c)) (wrap32 (a' + c'))) (mu_max a a') - mu_max a a'))
      (wrap32 (mu_max (mu_min (wrap32 (b + d)) (wrap32 (b' + d'))) (mu_max b b') - mu_max b b'))"
  by (simp add: intersect_rects_def Let_def mu_max_def mu_min_def)

text \<open>
  C6 as stated fails: it speaks of all rectangles.  For the rectangle
  \<open>(-2147483648, 0, -1, 10)\<close>, intersected with itself, \<open>x + w\<close> does not fit an \<open>int\<close>: the
  machine computes \<open>x2 = 2147483647\<close> and the width \<open>x2 - x1 = -1\<close>.
\<close>

theorem intersect_rects_overflow_counterexample:
  "rect_w (intersect_rects (mu_rect (- 2147483648) 0 (- 1) 10) (mu_rect (- 2147483648) 0 (- 1) 10))
     = - 1"
  by (simp add: intersect_rects_def mu_min_def mu_max_def wrap32_def)

text \<open>Where the edges fit, the 32-bit computation is the exact one.\<close>

lemma intersect_rects_exact:
  assumes "rect_fits a" and "rect_fits b"
  shows "intersect_rects a b =
    (let x1 = max (rect_x a) (rect_x b);
         y1 = max (rect_y a) (rect_y b);
         x2 = min (rect_x a + rect_w a) (rect_x b + rect_w b);
         y2 = min (rect_y a + rect_h a) (rect_y b + rect_h b)
     in mu_rect x1 y1 (max x2 x1 - x1) (max y2 y1 - y1))"
proof -
  have m: "mu_min = (min :: int \<Rightarrow> int \<Rightarrow> int)" "mu_max = (max :: int \<Rightarrow> int \<Rightarrow> int)"
    by (auto simp: fun_eq_iff mu_min_def mu_max_def)
  have s: "wrap32 (rect_x a + rect_w a) = rect_x a + rect_w a"
    "wrap32 (rect_x b + rect_w b) = rect_x b + rect_w b"
    "wrap32 (rect_y a + rect_h a) = rect_y a + rect_h a"
    "wrap32 (rect_y b + rect_h b) = rect_y b + rect_h b"
    using assms by (simp_all add: rect_fits_def wrap32_id)
  define x1 where "x1 = max (rect_x a) (rect_x b)"
  define y1 where "y1 = max (rect_y a) (rect_y b)"
  define x2 where "x2 = min (rect_x a + rect_w a) (rect_x b + rect_w b)"
  define y2 where "y2 = min (rect_y a + rect_h a) (rect_y b + rect_h b)"
  have "is_int32 (max x2 x1 - x1)" "is_int32 (max y2 y1 - y1)"
    using assms by (auto simp: x1_def x2_def y1_def y2_def rect_fits_def is_int32_def)
  then have w: "wrap32 (max x2 x1 - x1) = max x2 x1 - x1" "wrap32 (max y2 y1 - y1) = max y2 y1 - y1"
    by (simp_all add: wrap32_id)
  have i: "(if x2 < x1 then x1 else x2) = max x2 x1" "(if y2 < y1 then y1 else y2) = max y2 y1"
    by auto
  have "intersect_rects a b =
      mu_rect x1 y1 (wrap32 ((if x2 < x1 then x1 else x2) - x1))
        (wrap32 ((if y2 < y1 then y1 else y2) - y1))"
    unfolding intersect_rects_def Let_def m s x1_def x2_def y1_def y2_def ..
  then show ?thesis
    unfolding i w by (simp add: Let_def x1_def x2_def y1_def y2_def)
qed

text \<open>
  C6, as amended.  For all rectangles \<open>a\<close> and \<open>b\<close> whose edges \<open>x + w\<close> and \<open>y + h\<close> are
  computed without overflow, \<open>intersect_rects a b\<close> has non-negative width and height, and
  every point of it (a point \<open>rect_overlaps_vec2\<close> accepts) is a point of \<open>a\<close> and of \<open>b\<close>.
  Negative sizes are included.
\<close>

theorem intersect_rects_within:
  assumes "rect_fits a" and "rect_fits b"
  shows "0 \<le> rect_w (intersect_rects a b) \<and> 0 \<le> rect_h (intersect_rects a b) \<and>
         points (intersect_rects a b) \<subseteq> points a \<inter> points b"
  unfolding intersect_rects_exact [OF assms]
  by (auto simp: points_def rect_overlaps_vec2_def Let_def)

text \<open>Two overlapping rectangles: the intersection is not empty and lies in both.\<close>

theorem intersect_rects_within_witness:
  "intersect_rects (mu_rect 0 0 10 10) (mu_rect 5 5 10 10) = mu_rect 5 5 5 5 \<and>
   mu_vec2 6 6 \<in> points (intersect_rects (mu_rect 0 0 10 10) (mu_rect 5 5 10 10)) \<and>
   mu_vec2 6 6 \<in> points (mu_rect 0 0 10 10) \<inter> points (mu_rect 5 5 10 10)"
  using intersect_rects_within [of "mu_rect 0 0 10 10" "mu_rect 5 5 10 10"]
  by (simp add: intersect_rects_def points_def rect_overlaps_vec2_def mu_min_def mu_max_def
      wrap32_def rect_fits_def is_int32_def)




section \<open>Identifiers\<close>

lemma hash_fnv1a: "hash h bs = fnv1a h bs"
  by (induction bs arbitrary: h) (simp_all add: fnv1a_def)

text \<open>
  C4.  \<open>mu_get_id\<close> returns the FNV-1a fold (xor with the byte, then multiplication by
  16777619, in 32-bit unsigned arithmetic) of the input bytes, seeded with the top of the
  id stack, or with 2166136261 when the stack is empty.  The result depends on nothing
  else; the context returned is the context given with \<open>last_identifier\<close> set to the
  result, every other field unchanged.
\<close>

theorem mu_get_id_fnv1a:
  "mu_get_id ctx data =
     (fnv1a (if id_stack ctx = [] then 2166136261 else last (id_stack ctx)) data,
      ctx \<lparr> last_identifier :=
              fnv1a (if id_stack ctx = [] then 2166136261 else last (id_stack ctx)) data \<rparr>)"
  by (simp add: mu_get_id_def hash_fnv1a HASH_INITIAL_def Let_def)

text \<open>The identifier of the one byte \<open>a\<close> on an empty id stack is the FNV-1a test vector
  \<open>0xe40c292c\<close>; no byte on a stack returns its top.\<close>

theorem mu_get_id_fnv1a_witness:
  "mu_get_id mu_init [0x61] = (0xe40c292c, mu_init \<lparr> last_identifier := 0xe40c292c \<rparr>) \<and>
   mu_get_id (mu_init \<lparr> id_stack := [0xe40c292c] \<rparr>) [] =
     (0xe40c292c, mu_init \<lparr> id_stack := [0xe40c292c], last_identifier := 0xe40c292c \<rparr>)"
  using mu_get_id_fnv1a [of mu_init "[0x61]"]
    mu_get_id_fnv1a [of "mu_init \<lparr> id_stack := [0xe40c292c] \<rparr>" "[]"]
  by (simp add: fnv1a_def mu_init_def)

section \<open>Pools\<close>

lemma pool_oldest_none:
  "\<forall>it \<in> set items. \<not> p_last_update it < f \<Longrightarrow> pool_oldest items i n f = n"
  by (induction items arbitrary: i n f) auto

lemma pool_oldest_some:
  "\<exists>it \<in> set items. p_last_update it < f \<Longrightarrow>
   \<exists>k < length items. pool_oldest items i n f = i + int k \<and>
      p_last_update (items ! k) < f \<and>
      (\<forall>j < length items. p_last_update (items ! k) \<le> p_last_update (items ! j)) \<and>
      (\<forall>j < k. p_last_update (items ! k) < p_last_update (items ! j))"
proof (induction items arbitrary: i n f)
  case Nil
  then show ?case by simp
next
  case (Cons it its)
  show ?case
  proof (cases "p_last_update it < f")
    case True
    note lt = this
    show ?thesis
    proof (cases "\<exists>it' \<in> set its. p_last_update it' < p_last_update it")
      case True
      from Cons.IH [OF True, of "i + 1" i]
      obtain k where k: "k < length its"
        "pool_oldest its (i + 1) i (p_last_update it) = i + 1 + int k"
        "p_last_update (its ! k) < p_last_update it"
        "\<forall>j < length its. p_last_update (its ! k) \<le> p_last_update (its ! j)"
        "\<forall>j < k. p_last_update (its ! k) < p_last_update (its ! j)"
        by blast
      show ?thesis
      proof (intro exI [of _ "Suc k"] conjI allI impI)
        show "Suc k < length (it # its)" using k by simp
        show "pool_oldest (it # its) i n f = i + int (Suc k)" using k lt by simp
        show "p_last_update ((it # its) ! Suc k) < f" using k lt by simp
        show "p_last_update ((it # its) ! Suc k) \<le> p_last_update ((it # its) ! j)"
          if "j < length (it # its)" for j
          using that k by (cases j) auto
        show "p_last_update ((it # its) ! Suc k) < p_last_update ((it # its) ! j)"
          if "j < Suc k" for j
          using that k by (cases j) auto
      qed
    next
      case False
      then have none: "\<forall>it' \<in> set its. \<not> p_last_update it' < p_last_update it" by blast
      have r: "pool_oldest (it # its) i n f = i"
        using lt pool_oldest_none [OF none] by simp
      show ?thesis
      proof (intro exI [of _ 0] conjI allI impI)
        show "0 < length (it # its)" by simp
        show "pool_oldest (it # its) i n f = i + int 0" using r by simp
        show "p_last_update ((it # its) ! 0) < f" using lt by simp
        show "p_last_update ((it # its) ! 0) \<le> p_last_update ((it # its) ! j)"
          if "j < length (it # its)" for j
          using that none by (cases j) (auto simp: not_less)
        show "p_last_update ((it # its) ! 0) < p_last_update ((it # its) ! j)"
          if "j < 0" for j using that by simp
      qed
    qed
  next
    case False
    with Cons.prems have ex: "\<exists>it' \<in> set its. p_last_update it' < f" by auto
    from Cons.IH [OF ex, of "i + 1" n]
    obtain k where k: "k < length its"
      "pool_oldest its (i + 1) n f = i + 1 + int k"
      "p_last_update (its ! k) < f"
      "\<forall>j < length its. p_last_update (its ! k) \<le> p_last_update (its ! j)"
      "\<forall>j < k. p_last_update (its ! k) < p_last_update (its ! j)"
      by blast
    show ?thesis
    proof (intro exI [of _ "Suc k"] conjI allI impI)
      show "Suc k < length (it # its)" using k by simp
      show "pool_oldest (it # its) i n f = i + int (Suc k)" using k False by simp
      show "p_last_update ((it # its) ! Suc k) < f" using k by simp
      show "p_last_update ((it # its) ! Suc k) \<le> p_last_update ((it # its) ! j)"
        if "j < length (it # its)" for j
        using that k False by (cases j) auto
      show "p_last_update ((it # its) ! Suc k) < p_last_update ((it # its) ! j)"
        if "j < Suc k" for j
        using that k False by (cases j) auto
    qed
  qed
qed

lemma pool_item_overwrite:
  "(it :: mu_PoolItem) \<lparr> p_identifier := a, p_last_update := b \<rparr> =
     \<lparr> p_identifier = a, p_last_update = b \<rparr>"
  by (cases it) simp

text \<open>
  C3 as stated fails.  In frame 1, with each of the 48 slots already updated in frame 1,
  \<open>mu_pool_init\<close> evicts nothing: no slot has \<open>last_update < frame\<close>, \<open>n\<close> stays \<open>-1\<close> and
  \<open>expect(n > -1)\<close> aborts.
\<close>

theorem mu_pool_init_full_pool_counterexample:
  "mu_pool_init (mu_init \<lparr> frame := 1 \<rparr>)
     (map (\<lambda>i. \<lparr> p_identifier = word_of_nat i + 100, p_last_update = 1 \<rparr>) [0..<48]) 7
   = Inl AssertFailed"
  by (simp add: mu_pool_init_def pool_oldest_none mu_init_def)

text \<open>
  C3, amended.  If \<open>mu_pool_init\<close> is called when every slot's \<open>last_update\<close> equals the
  current frame number, it fails its assertion \<open>n > -1\<close> and returns nothing.  If some slot
  has \<open>last_update\<close> below the current frame number, it succeeds: it takes the slot with
  the oldest \<open>last_update\<close> (the lowest index among equals), writes the new identifier and
  the current frame number there, and returns that index.
\<close>

theorem mu_pool_init_evicts_only_older:
  "((\<forall>it \<in> set items. p_last_update it = frame ctx) \<longrightarrow>
       mu_pool_init ctx items ident = Inl AssertFailed) \<and>
   ((\<exists>it \<in> set items. p_last_update it < frame ctx) \<longrightarrow>
      (\<exists>k < length items.
         mu_pool_init ctx items ident =
           Inr (int k, items[k := \<lparr> p_identifier = ident, p_last_update = frame ctx \<rparr>]) \<and>
         (\<forall>j < length items. p_last_update (items ! k) \<le> p_last_update (items ! j)) \<and>
         (\<forall>j < k. p_last_update (items ! k) < p_last_update (items ! j))))"
proof (intro conjI impI)
  assume "\<forall>it \<in> set items. p_last_update it = frame ctx"
  then have "pool_oldest items 0 (- 1) (frame ctx) = - 1"
    by (intro pool_oldest_none) simp
  then show "mu_pool_init ctx items ident = Inl AssertFailed"
    by (simp add: mu_pool_init_def)
next
  assume "\<exists>it \<in> set items. p_last_update it < frame ctx"
  from pool_oldest_some [OF this, of 0 "- 1"]
  obtain k where k: "k < length items" "pool_oldest items 0 (- 1) (frame ctx) = int k"
    "\<forall>j < length items. p_last_update (items ! k) \<le> p_last_update (items ! j)"
    "\<forall>j < k. p_last_update (items ! k) < p_last_update (items ! j)"
    by auto
  have "mu_pool_init ctx items ident =
      Inr (int k, items[k := \<lparr> p_identifier = ident, p_last_update = frame ctx \<rparr>])"
    using k(1,2) by (simp add: mu_pool_init_def mu_pool_update_def pool_item_overwrite)
  with k show "\<exists>k < length items.
         mu_pool_init ctx items ident =
           Inr (int k, items[k := \<lparr> p_identifier = ident, p_last_update = frame ctx \<rparr>]) \<and>
         (\<forall>j < length items. p_last_update (items ! k) \<le> p_last_update (items ! j)) \<and>
         (\<forall>j < k. p_last_update (items ! k) < p_last_update (items ! j))"
    by blast
qed

text \<open>A pool whose two slots were both updated in frame 3, and a pool with two slots of
  frame 2: the lower of the two is taken.\<close>

theorem mu_pool_init_evicts_only_older_witness:
  "mu_pool_init (mu_init \<lparr> frame := 3 \<rparr>)
     [\<lparr> p_identifier = 10, p_last_update = 3 \<rparr>, \<lparr> p_identifier = 11, p_last_update = 3 \<rparr>] 7
     = Inl AssertFailed \<and>
   mu_pool_init (mu_init \<lparr> frame := 3 \<rparr>)
     [\<lparr> p_identifier = 10, p_last_update = 3 \<rparr>, \<lparr> p_identifier = 11, p_last_update = 2 \<rparr>,
      \<lparr> p_identifier = 12, p_last_update = 2 \<rparr>] 7
     = Inr (1, [\<lparr> p_identifier = 10, p_last_update = 3 \<rparr>, \<lparr> p_identifier = 7, p_last_update = 3 \<rparr>,
                \<lparr> p_identifier = 12, p_last_update = 2 \<rparr>])"
  using mu_pool_init_evicts_only_older [of
      "[\<lparr> p_identifier = 10, p_last_update = 3 \<rparr>, \<lparr> p_identifier = 11, p_last_update = 3 \<rparr>]"
      "mu_init \<lparr> frame := 3 \<rparr>" 7]
    mu_pool_init_evicts_only_older [of
      "[\<lparr> p_identifier = 10, p_last_update = 3 \<rparr>, \<lparr> p_identifier = 11, p_last_update = 2 \<rparr>,
        \<lparr> p_identifier = 12, p_last_update = 2 \<rparr>]"
      "mu_init \<lparr> frame := 3 \<rparr>" 7]
  by (simp add: mu_pool_init_def mu_pool_update_def mu_init_def)

section \<open>Evaluation of the drawing functions\<close>

lemma and_then_Inr:
  "and_then x f = Inr y \<longleftrightarrow> (\<exists>v. x = Inr v \<and> f v = Inr y)"
  by (cases x) auto

lemmas draw_defs = mu_textbox_raw_def mu_update_control_def mu_mouse_over_def
  rect_overlaps_vec2_def mu_draw_control_frame_def draw_frame_def style_color_def
  mu_draw_rect_def mu_get_clip_rect_def intersect_rects_literal mu_push_command_def
  mu_draw_box_def expand_rect_def call_text_width_def call_text_height_def
  mu_push_clip_rect_def mu_pop_clip_rect_def mu_draw_text_def mu_check_clip_def
  mu_set_clip_def set_body_def write_command_def mu_set_focus_def mu_draw_control_text_def
  c_div_def mu_min_def mu_max_def wrap32_literal

lemmas const_defs = MU_KEY_BACKSPACE_def MU_KEY_RETURN_def MU_OPT_HOLDFOCUS_def
  MU_OPT_NOINTERACT_def MU_OPT_NOFRAME_def MU_COLOR_BASE_def MU_COLOR_TEXT_def
  MU_COLOR_BORDER_def MU_COLOR_SCROLLBASE_def MU_COLOR_SCROLLTHUMB_def MU_COLOR_TITLEBG_def
  MU_COLOR_BUTTON_def
  MU_COMMANDLIST_SIZE_def MU_COMMAND_RECT_def MU_COMMAND_TEXT_def MU_COMMAND_CLIP_def
  MU_CLIP_ALL_def MU_CLIP_PART_def MU_CLIPSTACK_SIZE_def MU_RES_CHANGE_def MU_RES_SUBMIT_def
  sizeof_mu_RectCommand_def sizeof_mu_TextCommand_def sizeof_mu_ClipCommand_def
  MU_OPT_ALIGNCENTER_def MU_OPT_ALIGNRIGHT_def unclipped_rect_def MU_MOUSE_LEFT_def
  MU_KEY_SHIFT_def

section \<open>Layout\<close>

lemmas layout_defs = mu_layout_next_def get_layout_def set_layout_def layout_place_def
  mu_layout_row_def push_layout_def zero_layout_def MU_MAX_WIDTHS_def MU_LAYOUTSTACK_SIZE_def

text \<open>
  C8 as stated fails.  In a body of width 100 a single column of width \<open>-1\<close> with the
  cursor at \<open>x = 0\<close> gets the width 100 (the claim's own special case), whereas the
  claim's formula \<open>(W - x) + 1 - (k - 1)\<close> gives 101 for \<open>k = 1\<close>.
\<close>

theorem mu_layout_next_fill_counterexample:
  "map_sum id fst
     (and_then (push_layout mu_init (mu_rect 0 0 100 50) (mu_vec2 0 0)) (\<lambda>c.
      and_then (mu_layout_row c 1 (Some [- 1]) 0) mu_layout_next))
     = Inr (mu_rect 0 0 100 20) \<and>
   (100 :: int) \<noteq> (100 - 0) + 1 - (1 - 1)"
  by (simp add: layout_defs mu_init_def default_style_def mu_max_def Let_def)
lemma mu_layout_next_mid_row:
  assumes "layout_stack ctx \<noteq> []" and "L = last (layout_stack ctx)"
    and "l_next_type L = 0" and "l_items L > 0" and "l_item_index L \<noteq> l_items L"
    and "0 \<le> l_item_index L" and "nat (l_item_index L) < length (l_widths L)"
    and "l_widths L ! nat (l_item_index L) = - k" and "k > 0"
  shows "\<exists>r ctx'. mu_layout_next ctx = Inr (r, ctx') \<and>
           rect_w r = (rect_w (l_body L) - vec_x (l_position L)) + 1 - k"
  using assms by (simp add: layout_defs Let_def)

lemma mu_layout_next_row_wrap:
  assumes "layout_stack ctx \<noteq> []" and "L = last (layout_stack ctx)"
    and "l_next_type L = 0" and "l_items L > 0" and "l_item_index L = l_items L"
    and "0 < length (l_widths L)"
    and "l_widths L ! 0 = - k" and "k > 0"
  shows "\<exists>r ctx'. mu_layout_next ctx = Inr (r, ctx') \<and>
           rect_w r = (rect_w (l_body L) - l_indentation L) + 1 - k"
  using assms by (simp add: layout_defs Let_def)

text \<open>
  C8, amended.  In \<open>mu_layout_next\<close>, when no rectangle was forced by \<open>mu_layout_set_next\<close>
  and the row has columns, a column width of \<open>-k\<close> (\<open>k > 0\<close>) at the layout-local cursor
  position \<open>x\<close> in a body of width \<open>W\<close> yields a widget of width \<open>(W - x) + 1 - k\<close>.  The
  cursor and the column are those after the row has wrapped, when it is exhausted: then
  \<open>x\<close> is the indentation and the column is the first.  A single column of width \<open>-1\<close> at
  \<open>x = 0\<close> so yields the full body width \<open>W\<close>.
\<close>

theorem mu_layout_next_fill_width:
  assumes "layout_stack ctx \<noteq> []"
    and "L = last (layout_stack ctx)"
    and "l_next_type L = 0" and "l_items L > 0"
    and "i = (if l_item_index L = l_items L then 0 else l_item_index L)"
    and "x = (if l_item_index L = l_items L then l_indentation L else vec_x (l_position L))"
    and "0 \<le> i" and "nat i < length (l_widths L)"
    and "l_widths L ! nat i = - k" and "k > 0"
  shows "\<exists>r ctx'. mu_layout_next ctx = Inr (r, ctx') \<and>
           rect_w r = (rect_w (l_body L) - x) + 1 - k"
proof (cases "l_item_index L = l_items L")
  case True
  with assms have "0 < length (l_widths L)" "l_widths L ! 0 = - k"
    "x = l_indentation L" by simp_all
  with mu_layout_next_row_wrap [OF assms(1-4) True, of k] assms(10)
  show ?thesis by simp
next
  case False
  with assms have "0 \<le> l_item_index L" "nat (l_item_index L) < length (l_widths L)"
    "l_widths L ! nat (l_item_index L) = - k" "x = vec_x (l_position L)" by simp_all
  with mu_layout_next_mid_row [OF assms(1-4) False, of k] assms(10)
  show ?thesis by simp
qed

text \<open>The second of two columns, of width \<open>-3\<close>, at \<open>x = 34\<close> in a body of width 100; and
  the single column of width \<open>-1\<close> at \<open>x = 0\<close>, after the row has wrapped.\<close>

theorem mu_layout_next_fill_width_witness:
  "map_sum id (rect_w \<circ> fst)
     (mu_layout_next (mu_init \<lparr> layout_stack :=
        [zero_layout \<lparr> l_body := mu_rect 10 10 100 50, l_items := 2, l_item_index := 1,
                       l_position := mu_vec2 34 0, l_widths := [30, - 3] @ replicate 14 0 \<rparr>] \<rparr>))
     = Inr ((100 - 34) + 1 - 3) \<and>
   map_sum id (rect_w \<circ> fst)
     (mu_layout_next (mu_init \<lparr> layout_stack :=
        [zero_layout \<lparr> l_body := mu_rect 10 10 100 50, l_items := 1, l_item_index := 1,
                       l_position := mu_vec2 104 0, l_widths := [- 1] @ replicate 15 0 \<rparr>] \<rparr>))
     = Inr 100"
  using mu_layout_next_fill_width [of
      "mu_init \<lparr> layout_stack :=
        [zero_layout \<lparr> l_body := mu_rect 10 10 100 50, l_items := 2, l_item_index := 1,
                       l_position := mu_vec2 34 0, l_widths := [30, - 3] @ replicate 14 0 \<rparr>] \<rparr>"
      "zero_layout \<lparr> l_body := mu_rect 10 10 100 50, l_items := 2, l_item_index := 1,
                       l_position := mu_vec2 34 0, l_widths := [30, - 3] @ replicate 14 0 \<rparr>"
      1 34 3]
    mu_layout_next_fill_width [of
      "mu_init \<lparr> layout_stack :=
        [zero_layout \<lparr> l_body := mu_rect 10 10 100 50, l_items := 1, l_item_index := 1,
                       l_position := mu_vec2 104 0, l_widths := [- 1] @ replicate 15 0 \<rparr>] \<rparr>"
      "zero_layout \<lparr> l_body := mu_rect 10 10 100 50, l_items := 1, l_item_index := 1,
                       l_position := mu_vec2 104 0, l_widths := [- 1] @ replicate 15 0 \<rparr>"
      0 0 1]
  by (auto simp: zero_layout_def)

section \<open>Text box\<close>

lemma utf8_backspace_strip_gen:
  "lead AND 0xc0 \<noteq> 0x80 \<Longrightarrow> \<forall>c \<in> set conts. c AND 0xc0 = 0x80 \<Longrightarrow>
   utf8_backspace (pre @ lead # conts @ sfx) (Suc (length pre + length conts)) = length pre"
proof (induction conts arbitrary: sfx rule: rev_induct)
  case Nil
  then show ?case by (simp add: nth_append)
next
  case (snoc c cs)
  have "(pre @ lead # (cs @ [c]) @ sfx) ! (length pre + length (cs @ [c])) = c"
    by (simp add: nth_append)
  moreover have "c AND 0xc0 = 0x80" using snoc.prems by simp
  moreover have "utf8_backspace (pre @ lead # cs @ (c # sfx)) (Suc (length pre + length cs)) = length pre"
    using snoc.IH [of "c # sfx"] snoc.prems by simp
  ultimately show ?case by simp
qed

lemma utf8_backspace_strip:
  "lead AND 0xc0 \<noteq> 0x80 \<Longrightarrow> \<forall>c \<in> set conts. c AND 0xc0 = 0x80 \<Longrightarrow>
   take (utf8_backspace (pre @ lead # conts) (length (pre @ lead # conts))) (pre @ lead # conts) = pre"
  using utf8_backspace_strip_gen [of lead conts pre "[]"] by simp

text \<open>
  C7.  In \<open>mu_textbox_raw\<close>, when the widget has the focus after \<open>mu_update_control\<close>,
  Backspace is pressed and no text was typed, a buffer that ends in a UTF-8 code point (a
  byte \<open>lead\<close> that is no continuation byte, followed by continuation bytes \<open>conts\<close>, the
  bytes \<open>b\<close> with \<open>(b & 0xC0) == 0x80\<close>) loses exactly that code point: the loop walks back
  over \<open>conts\<close>, stops at \<open>lead\<close> and the buffer is cut there.  The call reports
  \<open>MU_RES_CHANGE\<close>.
\<close>

theorem mu_textbox_raw_backspace:
  assumes "mu_update_control ctx ident r (opt OR MU_OPT_HOLDFOCUS) = Inr c1"
    and "focus c1 = ident"
    and "key_pressed c1 AND MU_KEY_BACKSPACE \<noteq> 0"
    and "input_text c1 = []"
    and "buffer = pre @ lead # conts"
    and "lead AND 0xc0 \<noteq> 0x80"
    and "\<forall>c \<in> set conts. c AND 0xc0 = 0x80"
    and "mu_textbox_raw df ctx buffer bufsz ident r opt = Inr (res, buffer', ctx')"
  shows "buffer' = pre \<and> res AND MU_RES_CHANGE = MU_RES_CHANGE"
proof -
  have t: "take (utf8_backspace buffer (length buffer)) buffer = pre"
    using utf8_backspace_strip [OF assms(6,7)] assms(5) by simp
  have n: "\<not> mu_min (bufsz - int (length buffer) - 1) 0 > 0"
    by (simp add: mu_min_def)
  have len: "int (length buffer) > 0" using assms(5) by simp
  show ?thesis
    using assms(8) assms(1-4) t n len
    by (auto simp: mu_textbox_raw_def and_then_Inr Let_def MU_RES_CHANGE_def MU_RES_SUBMIT_def
        split: if_splits prod.splits)
qed

lemma textbox_ctx_update:
  "mu_update_control textbox_ctx 5 (mu_rect 10 10 100 20) (0 OR MU_OPT_HOLDFOCUS)
     = Inr (textbox_ctx \<lparr> updated_focus := 1 \<rparr>)"
  by (simp add: textbox_ctx_def mu_init_def mu_update_control_def mu_mouse_over_def
      rect_overlaps_vec2_def mu_set_focus_def const_defs)

text \<open>Four successive backspaces on the bytes \<open>68 C3 A9 6C 6C 6F\<close>: the last one removes
  the two bytes \<open>C3 A9\<close> together.\<close>

theorem mu_textbox_raw_backspace_witness:
  "map_sum id (fst \<circ> snd)
     (mu_textbox_raw draw_frame textbox_ctx [0x68, 0xc3, 0xa9, 0x6c, 0x6c, 0x6f] 32 5
        (mu_rect 10 10 100 20) 0) = Inr [0x68, 0xc3, 0xa9, 0x6c, 0x6c] \<and>
   map_sum id (fst \<circ> snd)
     (mu_textbox_raw draw_frame textbox_ctx [0x68, 0xc3, 0xa9, 0x6c, 0x6c] 32 5
        (mu_rect 10 10 100 20) 0) = Inr [0x68, 0xc3, 0xa9, 0x6c] \<and>
   map_sum id (fst \<circ> snd)
     (mu_textbox_raw draw_frame textbox_ctx [0x68, 0xc3, 0xa9, 0x6c] 32 5
        (mu_rect 10 10 100 20) 0) = Inr [0x68, 0xc3, 0xa9] \<and>
   map_sum id (fst \<circ> snd)
     (mu_textbox_raw draw_frame textbox_ctx [0x68, 0xc3, 0xa9] 32 5
        (mu_rect 10 10 100 20) 0) = Inr [0x68]"
proof -
  have step: "map_sum id (fst \<circ> snd)
     (mu_textbox_raw draw_frame textbox_ctx (pre @ lead # conts) 32 5 (mu_rect 10 10 100 20) 0)
       = Inr pre"
    if run: "\<exists>res b c. mu_textbox_raw draw_frame textbox_ctx (pre @ lead # conts) 32 5
                (mu_rect 10 10 100 20) 0 = Inr (res, b, c)"
      and lead: "lead AND 0xc0 \<noteq> 0x80" and conts: "\<forall>c \<in> set conts. c AND 0xc0 = 0x80"
    for pre lead conts
  proof -
    from run obtain res b c where
      e: "mu_textbox_raw draw_frame textbox_ctx (pre @ lead # conts) 32 5
            (mu_rect 10 10 100 20) 0 = Inr (res, b, c)"
      by blast
    have "b = pre \<and> res AND MU_RES_CHANGE = MU_RES_CHANGE"
      by (rule mu_textbox_raw_backspace [OF textbox_ctx_update _ _ _ refl lead conts e])
        (simp_all add: textbox_ctx_def mu_init_def const_defs)
    with e show ?thesis by simp
  qed
  have r1: "\<exists>res b c. mu_textbox_raw draw_frame textbox_ctx ([0x68, 0xc3, 0xa9, 0x6c, 0x6c] @ 0x6f # []) 32 5
                (mu_rect 10 10 100 20) 0 = Inr (res, b, c)"
    by (simp add: textbox_ctx_def mu_init_def default_style_def draw_defs const_defs Let_def)
  have r2: "\<exists>res b c. mu_textbox_raw draw_frame textbox_ctx ([0x68, 0xc3, 0xa9, 0x6c] @ 0x6c # []) 32 5
                (mu_rect 10 10 100 20) 0 = Inr (res, b, c)"
    by (simp add: textbox_ctx_def mu_init_def default_style_def draw_defs const_defs Let_def)
  have r3: "\<exists>res b c. mu_textbox_raw draw_frame textbox_ctx ([0x68, 0xc3, 0xa9] @ 0x6c # []) 32 5
                (mu_rect 10 10 100 20) 0 = Inr (res, b, c)"
    by (simp add: textbox_ctx_def mu_init_def default_style_def draw_defs const_defs Let_def)
  have r4: "\<exists>res b c. mu_textbox_raw draw_frame textbox_ctx ([0x68] @ 0xc3 # [0xa9]) 32 5
                (mu_rect 10 10 100 20) 0 = Inr (res, b, c)"
    by (simp add: textbox_ctx_def mu_init_def default_style_def draw_defs const_defs Let_def)
  show ?thesis
    using step [OF r1] step [OF r2] step [OF r3] step [OF r4] by simp
qed

section \<open>Walks through the command buffer\<close>

lemma path_append:
  "path m a xs f1 b \<Longrightarrow> path m b ys f2 c \<Longrightarrow> path m a (xs @ ys) (f1 @ f2) c"
  by (induction rule: path.induct) (auto intro: path.intros)

lemma path_cong:
  "path m a cs fp b \<Longrightarrow> \<forall>x \<in> set fp. m' x = m x \<Longrightarrow> path m' a cs fp b"
  by (induction rule: path.induct) (auto intro: path.intros)

lemma path_jump_step:
  "m a = Some c \<Longrightarrow> cmd_type c = MU_COMMAND_JUMP \<Longrightarrow> cmd_body c = JumpDst (Some d) \<Longrightarrow>
   path m a [] [a] d"
  by (rule path_Jump [where cs = "[]" and fp = "[]"]) (auto intro: path_Nil)

lemma path_cmd_step:
  "m a = Some c \<Longrightarrow> cmd_type c \<noteq> MU_COMMAND_JUMP \<Longrightarrow> path m a [a] [a] (a + cmd_size c)"
  by (rule path_Cmd [where cs = "[]" and fp = "[]"]) (auto intro: path_Nil)

lemma path_cmds_in_fp: "path m a cs fp b \<Longrightarrow> set cs \<subseteq> set fp"
  by (induction rule: path.induct) auto

lemma path_cmds_not_jump:
  "path m a cs fp b \<Longrightarrow> \<forall>x \<in> set cs. \<exists>c. m x = Some c \<and> cmd_type c \<noteq> MU_COMMAND_JUMP"
  by (induction rule: path.induct) auto

lemma path_scan:
  assumes "path m a cs fp b" and "b = command_idx ctx" and "command_idx ctx \<notin> set fp"
    and "command_list ctx = m"
    and "mu_next_command ctx cmd = next_command_loop m (command_idx ctx) (Some a)"
  shows "commands_from ctx cmd = Some (Inr cs)"
  using assms
proof (induction arbitrary: cmd rule: path.induct)
  case (path_Nil m a)
  then have "mu_next_command ctx cmd = Some (Inr (0, Some a))"
    by (simp add: next_command_loop.simps)
  then show ?case by (subst commands_from.simps) simp
next
  case (path_Cmd m a c cs fp b)
  have ne: "a \<noteq> command_idx ctx" using path_Cmd.prems by auto
  have n: "mu_next_command ctx cmd = Some (Inr (1, Some a))"
    using path_Cmd.prems path_Cmd.hyps ne
    by (simp add: next_command_loop.simps [of m _ "Some a"])
  have "mu_next_command ctx (Some a) = next_command_loop m (command_idx ctx) (Some (a + cmd_size c))"
    using path_Cmd.hyps path_Cmd.prems by (simp add: mu_next_command_def)
  then have "commands_from ctx (Some a) = Some (Inr cs)"
    using path_Cmd.IH path_Cmd.prems by simp
  then show ?case using n by (subst commands_from.simps) simp
next
  case (path_Jump m a c d cs fp b)
  have ne: "a \<noteq> command_idx ctx" using path_Jump.prems by auto
  have "next_command_loop m (command_idx ctx) (Some a) = next_command_loop m (command_idx ctx) (Some d)"
    using path_Jump.hyps ne by (simp add: next_command_loop.simps [of m _ "Some a"])
  then show ?case using path_Jump.IH path_Jump.prems by simp
qed

section \<open>What the operations of a frame do to the command pipeline\<close>

lemma nth_update_field:
  assumes "\<And>y. f (k y) = f y"
  shows "f (xs[c := k (xs ! c)] ! x) = f (xs ! x)"
proof (cases "c < length xs")
  case True
  then show ?thesis using assms by (cases "x = c") simp_all
next
  case False
  then show ?thesis by (simp add: list_update_beyond)
qed

lemma heads_tails_cong:
  "containers ctx' = containers ctx \<Longrightarrow> heads ctx' = heads ctx \<and> tails ctx' = tails ctx"
  by (auto simp: heads_def tails_def fun_eq_iff)

lemma same_pipe_refl: "same_pipe ctx ctx"
  by (simp add: same_pipe_def)

lemma same_pipe_trans: "same_pipe a b \<Longrightarrow> same_pipe b c \<Longrightarrow> same_pipe a c"
  by (simp add: same_pipe_def)

lemma mu_pop_id_pipe:
  "mu_pop_id ctx = Inr ctx' \<Longrightarrow> same_pipe ctx ctx' \<and> container_stack ctx' = container_stack ctx"
  by (auto simp: mu_pop_id_def same_pipe_def heads_def tails_def split: if_splits)

lemma mu_push_id_pipe:
  "mu_push_id ctx d = Inr ctx' \<Longrightarrow> same_pipe ctx ctx' \<and> container_stack ctx' = container_stack ctx"
  by (auto simp: mu_push_id_def mu_get_id_def same_pipe_def heads_def tails_def Let_def
      split: if_splits)

lemma mu_pop_clip_rect_pipe:
  "mu_pop_clip_rect ctx = Inr ctx' \<Longrightarrow> same_pipe ctx ctx' \<and> container_stack ctx' = container_stack ctx"
  by (auto simp: mu_pop_clip_rect_def same_pipe_def heads_def tails_def split: if_splits)

lemma mu_push_clip_rect_pipe:
  "mu_push_clip_rect ctx r = Inr ctx' \<Longrightarrow> same_pipe ctx ctx' \<and> container_stack ctx' = container_stack ctx"
  by (auto simp: mu_push_clip_rect_def and_then_Inr same_pipe_def heads_def tails_def
      split: if_splits)

lemma push_layout_pipe:
  "push_layout ctx b s = Inr ctx' \<Longrightarrow> same_pipe ctx ctx' \<and> container_stack ctx' = container_stack ctx"
  by (auto simp: push_layout_def mu_layout_row_def get_layout_def set_layout_def and_then_Inr
      same_pipe_def heads_def tails_def Let_def split: if_splits)

lemma mu_bring_to_front_pipe:
  "same_pipe ctx (mu_bring_to_front ctx c) \<and>
   container_stack (mu_bring_to_front ctx c) = container_stack ctx"
proof -
  have "heads (mu_bring_to_front ctx c) = heads ctx"
    by (rule ext) (simp add: mu_bring_to_front_def heads_def Let_def nth_update_field)
  moreover have "tails (mu_bring_to_front ctx c) = tails ctx"
    by (rule ext) (simp add: mu_bring_to_front_def tails_def Let_def nth_update_field)
  ultimately show ?thesis
    by (simp add: same_pipe_def mu_bring_to_front_def Let_def)
qed

lemma pop_container_pipe:
  assumes "pop_container ctx = Inr ctx'"
  shows "same_pipe ctx ctx' \<and> container_stack ctx \<noteq> [] \<and>
         container_stack ctx' = butlast (container_stack ctx)"
proof -
  from assms obtain cnt layout where
    c: "mu_get_current_container ctx = Inr cnt" and "get_layout ctx = Inr layout" and
    r: "(let ctx = ctx \<lparr> containers := (containers ctx)
                  [cnt := (containers ctx ! cnt)
                     \<lparr> c_content_size :=
                         mu_vec2 (vec_x (l_max layout) - rect_x (l_body layout))
                                 (vec_y (l_max layout) - rect_y (l_body layout)) \<rparr>] \<rparr>
      in if \<not> length (container_stack ctx) > 0 then Inl AssertFailed
         else
           let ctx = ctx \<lparr> container_stack := butlast (container_stack ctx) \<rparr>
           in if \<not> length (layout_stack ctx) > 0 then Inl AssertFailed
              else mu_pop_id (ctx \<lparr> layout_stack := butlast (layout_stack ctx) \<rparr>)) = Inr ctx'"
    by (auto simp: pop_container_def and_then_Inr)
  define c1 where "c1 = ctx \<lparr> containers := (containers ctx)
                  [cnt := (containers ctx ! cnt)
                     \<lparr> c_content_size :=
                         mu_vec2 (vec_x (l_max layout) - rect_x (l_body layout))
                                 (vec_y (l_max layout) - rect_y (l_body layout)) \<rparr>] \<rparr>"
  have h: "heads c1 = heads ctx" "tails c1 = tails ctx"
    by (rule ext, simp add: c1_def heads_def tails_def nth_update_field)+
  have ne: "container_stack ctx \<noteq> []"
    using c by (auto simp: mu_get_current_container_def split: if_splits)
  define c2 where "c2 = c1 \<lparr> container_stack := butlast (container_stack c1),
      layout_stack := butlast (layout_stack c1) \<rparr>"
  have h2: "heads c2 = heads c1 \<and> tails c2 = tails c1"
    by (rule heads_tails_cong) (simp add: c2_def)
  from r have "mu_pop_id c2 = Inr ctx'"
    by (auto simp: Let_def c1_def c2_def split: if_splits)
  from mu_pop_id_pipe [OF this] have "same_pipe c2 ctx'" "container_stack ctx' = container_stack c2"
    by simp_all
  moreover have "same_pipe ctx c2"
    using h h2 by (simp add: same_pipe_def) (simp add: c2_def c1_def)
  moreover have "container_stack c2 = butlast (container_stack ctx)"
    by (simp add: c2_def c1_def)
  ultimately show ?thesis using ne same_pipe_trans by auto
qed

lemma mu_push_command_Inr:
  "mu_push_command ctx ty sz = Inr (a, c) \<Longrightarrow>
     a = command_idx ctx \<and>
     c = ctx \<lparr> command_list :=
                  write_command (command_list ctx) (command_idx ctx) (Command ty sz Unset),
               command_idx := command_idx ctx + sz \<rparr>"
  by (auto simp: mu_push_command_def split: if_splits)

lemma set_body_written:
  "set_body (write_command m a (Command ty sz Unset)) a body =
     (write_command m a (Command ty sz Unset))(a \<mapsto> Command ty sz body)"
  by (simp add: set_body_def write_command_def)

lemma written_below: "x < a \<Longrightarrow> ((write_command m a c)(a \<mapsto> c')) x = m x"
  by (simp add: write_command_def)

lemma push_effect:
  assumes "run_op (Push ty sz body) ctx = Inr ctx'"
  shows "command_idx ctx' = command_idx ctx + sz \<and>
         command_list ctx' (command_idx ctx) = Some (Command ty sz body) \<and>
         (\<forall>x < command_idx ctx. command_list ctx' x = command_list ctx x) \<and>
         root_list ctx' = root_list ctx \<and> heads ctx' = heads ctx \<and> tails ctx' = tails ctx \<and>
         length (containers ctx') = length (containers ctx) \<and>
         container_stack ctx' = container_stack ctx"
proof -
  from assms obtain a c where p: "mu_push_command ctx ty sz = Inr (a, c)"
    and r: "ctx' = c \<lparr> command_list := set_body (command_list c) a body \<rparr>"
    by (auto simp: and_then_Inr)
  from mu_push_command_Inr [OF p] r
  have e: "ctx' = ctx \<lparr> command_list :=
      (write_command (command_list ctx) (command_idx ctx) (Command ty sz Unset))
        (command_idx ctx \<mapsto> Command ty sz body),
      command_idx := command_idx ctx + sz \<rparr>"
    by (simp add: set_body_written)
  then have "containers ctx' = containers ctx" by simp
  from heads_tails_cong [OF this] e show ?thesis
    by (simp add: write_command_def)
qed

lemma push_jump_effect:
  assumes "push_jump ctx dst = Inr (a, ctx')"
  shows "a = command_idx ctx \<and> command_idx ctx' = command_idx ctx + sizeof_mu_JumpCommand \<and>
         command_list ctx' (command_idx ctx) =
           Some (Command MU_COMMAND_JUMP sizeof_mu_JumpCommand (JumpDst dst)) \<and>
         (\<forall>x < command_idx ctx. command_list ctx' x = command_list ctx x) \<and>
         root_list ctx' = root_list ctx \<and> containers ctx' = containers ctx \<and>
         container_stack ctx' = container_stack ctx \<and> clip_stack ctx' = clip_stack ctx \<and>
         layout_stack ctx' = layout_stack ctx \<and> id_stack ctx' = id_stack ctx"
proof -
  from assms obtain a' c where
    p: "mu_push_command ctx MU_COMMAND_JUMP sizeof_mu_JumpCommand = Inr (a', c)"
    and r: "a = a'" "ctx' = c \<lparr> command_list := set_body (command_list c) a' (JumpDst dst) \<rparr>"
    by (auto simp: push_jump_def and_then_Inr)
  from mu_push_command_Inr [OF p] r
  have e: "ctx' = ctx \<lparr> command_list :=
      (write_command (command_list ctx) (command_idx ctx)
         (Command MU_COMMAND_JUMP sizeof_mu_JumpCommand Unset))
        (command_idx ctx \<mapsto> Command MU_COMMAND_JUMP sizeof_mu_JumpCommand (JumpDst dst)),
      command_idx := command_idx ctx + sizeof_mu_JumpCommand \<rparr>" and "a = command_idx ctx"
    by (simp_all add: set_body_written)
  then show ?thesis
    by (simp add: write_command_def)
qed

lemma begin_root_effect:
  assumes run: "begin_root_container ctx c = Inr ctx'" and c: "c < length (containers ctx)"
  shows "command_idx ctx' = command_idx ctx + sizeof_mu_JumpCommand \<and>
         command_list ctx' (command_idx ctx) =
           Some (Command MU_COMMAND_JUMP sizeof_mu_JumpCommand (JumpDst None)) \<and>
         (\<forall>x < command_idx ctx. command_list ctx' x = command_list ctx x) \<and>
         root_list ctx' = root_list ctx @ [c] \<and>
         container_stack ctx' = container_stack ctx @ [c] \<and>
         heads ctx' = (heads ctx)(c := Some (command_idx ctx)) \<and>
         tails ctx' = tails ctx \<and>
         length (containers ctx') = length (containers ctx)"
proof -
  define c0 where "c0 = ctx \<lparr> container_stack := container_stack ctx @ [c],
    root_list := root_list ctx @ [c] \<rparr>"
  from run obtain a c1 where pj: "push_jump c0 None = Inr (a, c1)"
    and rest: "(let ctx = c1 \<lparr> containers :=
                           (containers c1)[c := (containers c1 ! c) \<lparr> c_head := Some a \<rparr>] \<rparr>;
                   ctx = (if rect_overlaps_vec2 (c_rectangle (containers ctx ! c)) (mouse_pos ctx) \<and>
                             (case next_hover_root ctx of
                                None \<Rightarrow> True
                              | Some r \<Rightarrow> c_zindex (containers ctx ! c) > c_zindex (containers ctx ! r))
                          then ctx \<lparr> next_hover_root := Some c \<rparr> else ctx)
               in if \<not> length (clip_stack ctx) < MU_CLIPSTACK_SIZE then Inl AssertFailed
                  else Inr (ctx \<lparr> clip_stack := clip_stack ctx @ [unclipped_rect] \<rparr>)) = Inr ctx'"
    by (auto simp: begin_root_container_def Let_def and_then_Inr c0_def split: if_splits)
  note pe = push_jump_effect [OF pj]
  define c2 where "c2 = c1 \<lparr> containers :=
                           (containers c1)[c := (containers c1 ! c) \<lparr> c_head := Some a \<rparr>] \<rparr>"
  from rest have same: "containers ctx' = containers c2" "command_list ctx' = command_list c2"
    "command_idx ctx' = command_idx c2" "root_list ctx' = root_list c2"
    "container_stack ctx' = container_stack c2"
    by (auto simp: Let_def c2_def split: if_splits)
  have hd: "heads c2 = (heads ctx)(c := Some (command_idx ctx))"
    using pe c by (auto simp: heads_def c2_def c0_def fun_eq_iff)
  have tl: "tails c2 = tails ctx"
    using pe by (auto simp: tails_def c2_def c0_def fun_eq_iff nth_update_field)
  have "heads ctx' = heads c2" "tails ctx' = tails c2"
    using heads_tails_cong [OF same(1)] by simp_all
  with hd tl same pe show ?thesis
    by (simp add: c2_def c0_def)
qed

lemma end_root_effect:
  assumes run: "end_root_container ctx = Inr ctx'"
    and c: "last (container_stack ctx) < length (containers ctx)"
  shows "container_stack ctx \<noteq> [] \<and>
         container_stack ctx' = butlast (container_stack ctx) \<and>
         root_list ctx' = root_list ctx \<and>
         command_idx ctx' = command_idx ctx + sizeof_mu_JumpCommand \<and>
         heads ctx' = heads ctx \<and>
         tails ctx' = (tails ctx)(last (container_stack ctx) := Some (command_idx ctx)) \<and>
         length (containers ctx') = length (containers ctx) \<and>
         (\<exists>h. heads ctx (last (container_stack ctx)) = Some h \<and>
              (\<forall>x < command_idx ctx. x \<noteq> h \<longrightarrow> command_list ctx' x = command_list ctx x) \<and>
              (h \<noteq> command_idx ctx \<longrightarrow> command_list ctx' (command_idx ctx) =
                 Some (Command MU_COMMAND_JUMP sizeof_mu_JumpCommand (JumpDst None))) \<and>
              (h < command_idx ctx \<longrightarrow>
                 (\<exists>jc. command_list ctx h = Some jc \<and>
                    command_list ctx' h =
                      Some (Command (cmd_type jc) (cmd_size jc)
                              (JumpDst (Some (command_idx ctx + sizeof_mu_JumpCommand)))))))"
proof -
  define cnt where "cnt = last (container_stack ctx)"
  from run have ne: "container_stack ctx \<noteq> []"
    by (auto simp: end_root_container_def mu_get_current_container_def split: if_splits)
  then have gc: "mu_get_current_container ctx = Inr cnt"
    by (simp add: mu_get_current_container_def cnt_def)
  from run gc obtain a c1 where pj: "push_jump ctx None = Inr (a, c1)"
    and rest: "(let ctx = c1 \<lparr> containers :=
                  (containers c1)[cnt := (containers c1 ! cnt) \<lparr> c_tail := Some a \<rparr>] \<rparr>
      in and_then (set_jump_dst (command_list ctx) (c_head (containers ctx ! cnt))
                     (Some (command_idx ctx))) (\<lambda>m.
         and_then (mu_pop_clip_rect (ctx \<lparr> command_list := m \<rparr>)) pop_container)) = Inr ctx'"
    by (auto simp: end_root_container_def and_then_Inr)
  note pe = push_jump_effect [OF pj]
  define c2 where "c2 = c1 \<lparr> containers :=
                  (containers c1)[cnt := (containers c1 ! cnt) \<lparr> c_tail := Some a \<rparr>] \<rparr>"
  from rest obtain m c3 where
    sj: "set_jump_dst (command_list c2) (c_head (containers c2 ! cnt)) (Some (command_idx c2)) = Inr m"
    and pc: "mu_pop_clip_rect (c2 \<lparr> command_list := m \<rparr>) = Inr c3"
    and po: "pop_container c3 = Inr ctx'"
    by (auto simp: Let_def and_then_Inr c2_def)
  from sj obtain h jc where h: "c_head (containers c2 ! cnt) = Some h"
    and jc: "command_list c2 h = Some jc"
    and m: "m = (command_list c2)(h \<mapsto> Command (cmd_type jc) (cmd_size jc) (JumpDst (Some (command_idx c2))))"
    by (auto simp: set_jump_dst_def split: option.splits)
  have hd2: "heads c2 = heads ctx"
    using pe by (auto simp: heads_def c2_def fun_eq_iff nth_update_field)
  have tl2: "tails c2 = (tails ctx)(cnt := Some (command_idx ctx))"
    using pe c by (auto simp: tails_def c2_def cnt_def fun_eq_iff)
  define c2m where "c2m = c2 \<lparr> command_list := m \<rparr>"
  have p1: "same_pipe c2m c3" "container_stack c3 = container_stack c2m"
    using mu_pop_clip_rect_pipe [OF pc [folded c2m_def]] by simp_all
  have p2: "same_pipe c3 ctx'" "container_stack ctx' = butlast (container_stack c3)"
    using pop_container_pipe [OF po] by simp_all
  have sp: "same_pipe c2m ctx'" using p1 p2 same_pipe_trans by blast
  have hm: "heads c2m = heads c2 \<and> tails c2m = tails c2"
    by (rule heads_tails_cong) (simp add: c2m_def)
  have hh: "heads ctx cnt = Some h" using h hd2 [symmetric] by (simp add: heads_def)
  have cl: "command_list ctx' = m" using sp by (simp add: same_pipe_def c2m_def)
  have c2facts: "command_idx c2 = command_idx ctx + sizeof_mu_JumpCommand"
    "command_list c2 (command_idx ctx) =
       Some (Command MU_COMMAND_JUMP sizeof_mu_JumpCommand (JumpDst None))"
    "\<forall>x < command_idx ctx. command_list c2 x = command_list ctx x"
    using pe by (simp_all add: c2_def)
  show ?thesis
  proof (intro conjI)
    show "container_stack ctx \<noteq> []" by (rule ne)
    show "container_stack ctx' = butlast (container_stack ctx)"
      using p1 p2 pe by (simp add: c2m_def c2_def)
    show "root_list ctx' = root_list ctx"
      using sp pe by (simp add: same_pipe_def c2m_def c2_def)
    show "command_idx ctx' = command_idx ctx + sizeof_mu_JumpCommand"
      using sp c2facts by (simp add: same_pipe_def c2m_def)
    show "heads ctx' = heads ctx" using sp hm hd2 by (simp add: same_pipe_def)
    show "tails ctx' = (tails ctx)(last (container_stack ctx) := Some (command_idx ctx))"
      using sp hm tl2 by (simp add: same_pipe_def cnt_def)
    show "length (containers ctx') = length (containers ctx)"
      using sp pe by (simp add: same_pipe_def c2m_def c2_def)
    show "\<exists>h. heads ctx (last (container_stack ctx)) = Some h \<and>
              (\<forall>x < command_idx ctx. x \<noteq> h \<longrightarrow> command_list ctx' x = command_list ctx x) \<and>
              (h \<noteq> command_idx ctx \<longrightarrow> command_list ctx' (command_idx ctx) =
                 Some (Command MU_COMMAND_JUMP sizeof_mu_JumpCommand (JumpDst None))) \<and>
              (h < command_idx ctx \<longrightarrow>
                 (\<exists>jc. command_list ctx h = Some jc \<and>
                    command_list ctx' h =
                      Some (Command (cmd_type jc) (cmd_size jc)
                              (JumpDst (Some (command_idx ctx + sizeof_mu_JumpCommand))))))"
    proof (intro exI [of _ h] conjI allI impI)
      show "heads ctx (last (container_stack ctx)) = Some h" using hh by (simp add: cnt_def)
      show "command_list ctx' x = command_list ctx x" if "x < command_idx ctx" "x \<noteq> h" for x
        using that cl m c2facts by simp
      show "command_list ctx' (command_idx ctx) =
                 Some (Command MU_COMMAND_JUMP sizeof_mu_JumpCommand (JumpDst None))"
        if "h \<noteq> command_idx ctx"
        using that cl m c2facts by simp
      show "\<exists>jc. command_list ctx h = Some jc \<and>
                    command_list ctx' h =
                      Some (Command (cmd_type jc) (cmd_size jc)
                              (JumpDst (Some (command_idx ctx + sizeof_mu_JumpCommand))))"
        if "h < command_idx ctx"
        using that cl m c2facts jc by simp
    qed
  qed
qed

section \<open>The invariant is kept\<close>

lemma J_pos: "0 < sizeof_mu_JumpCommand"
  by (simp add: sizeof_mu_JumpCommand_def)

lemma is_jump_cong: "is_jump m a \<Longrightarrow> m' a = m a \<Longrightarrow> is_jump m' a"
  by (simp add: is_jump_def)

lemma root_ok_cong:
  assumes "root_ok m hs D F c tgt" and "hs' c = hs c" and "D' c = D c" and "F' c = F c"
    and "\<forall>x \<in> set (F c). m' x = m x" and "\<forall>h. hs c = Some h \<longrightarrow> is_jump m' h"
  shows "root_ok m' hs' D' F' c tgt"
proof -
  from assms(1) obtain h where h: "hs c = Some h" "0 \<le> h"
    "path m (h + sizeof_mu_JumpCommand) (D c) (F c) tgt" "h + sizeof_mu_JumpCommand \<le> tgt"
    "\<forall>x \<in> set (F c). h + sizeof_mu_JumpCommand \<le> x \<and> x < tgt"
    by (auto simp: root_ok_def)
  have "path m' (h + sizeof_mu_JumpCommand) (D c) (F c) tgt"
    using path_cong [OF h(3)] assms(5) by blast
  with h assms show ?thesis by (simp add: root_ok_def)
qed

lemma open_ok_cong:
  assumes "open_ok m hs D F cs tgt"
    and "\<forall>c \<in> set cs. hs' c = hs c \<and> D' c = D c \<and> F' c = F c \<and>
           (\<forall>x \<in> set (F c). m' x = m x) \<and> (\<forall>h. hs c = Some h \<longrightarrow> is_jump m' h)"
  shows "open_ok m' hs' D' F' cs tgt"
  using assms
proof (induction cs arbitrary: tgt)
  case Nil
  then show ?case by simp
next
  case (Cons c cs)
  from Cons.prems(1) obtain h where r: "root_ok m hs D F c tgt" and h: "hs c = Some h"
    and o: "open_ok m hs D F cs h" by auto
  have "root_ok m' hs' D' F' c tgt"
    by (rule root_ok_cong [OF r]) (use Cons.prems(2) in auto)
  moreover have "open_ok m' hs' D' F' cs h"
    by (rule Cons.IH [OF o]) (use Cons.prems(2) in auto)
  moreover have "hs' c = Some h" using h Cons.prems(2) by simp
  ultimately show ?case by simp
qed

lemma open_ok_member:
  "open_ok m hs D F cs tgt \<Longrightarrow> c \<in> set cs \<Longrightarrow>
     \<exists>t'. root_ok m hs D F c t' \<and> (t' = tgt \<or> (\<exists>c' \<in> set cs. hs c' = Some t'))"
proof (induction cs arbitrary: tgt)
  case Nil
  then show ?case by simp
next
  case (Cons c0 cs)
  from Cons.prems(1) obtain h where r: "root_ok m hs D F c0 tgt" and h: "hs c0 = Some h"
    and o: "open_ok m hs D F cs h" by auto
  show ?case
  proof (cases "c = c0")
    case True
    with r show ?thesis by blast
  next
    case False
    with Cons.prems(2) have "c \<in> set cs" by simp
    from Cons.IH [OF o this] obtain t' where
      "root_ok m hs D F c t'" "t' = h \<or> (\<exists>c' \<in> set cs. hs c' = Some t')" by blast
    with h show ?thesis by auto
  qed
qed

lemma pipe_root_target:
  assumes inv: "pipe_inv m e hs ts R opn D F" and c: "c \<in> set R"
  shows "\<exists>t'. root_ok m hs D F c t' \<and> t' \<le> e"
proof (cases "c \<in> set opn")
  case True
  from inv have o: "open_ok m hs D F opn e" and sub: "set opn \<subseteq> set R"
    and hb: "\<forall>c \<in> set R. \<exists>h. hs c = Some h \<and> 0 \<le> h \<and> h + sizeof_mu_JumpCommand \<le> e"
    by (auto simp: pipe_inv_def)
  from open_ok_member [OF o True] obtain t' where
    r: "root_ok m hs D F c t'" and t: "t' = e \<or> (\<exists>c' \<in> set opn. hs c' = Some t')" by blast
  have "t' \<le> e"
  proof (rule disjE [OF t])
    assume "t' = e" then show ?thesis by simp
  next
    assume "\<exists>c' \<in> set opn. hs c' = Some t'"
    then obtain c' where "c' \<in> set R" "hs c' = Some t'" using sub by blast
    with hb J_pos show ?thesis by fastforce
  qed
  with r show ?thesis by blast
next
  case False
  with inv c have "closed_ok m e hs ts D F c" by (auto simp: pipe_inv_def)
  then obtain t where "t + sizeof_mu_JumpCommand \<le> e" "root_ok m hs D F c t"
    by (auto simp: closed_ok_def)
  with J_pos show ?thesis by (intro exI [of _ t]) simp
qed

lemma pipe_fp_below:
  assumes inv: "pipe_inv m e hs ts R opn D F" and c: "c \<in> set R" and x: "x \<in> set (F c)"
  shows "x < e"
proof -
  from pipe_root_target [OF inv c] obtain t' where "root_ok m hs D F c t'" "t' \<le> e" by blast
  with x show ?thesis by (fastforce simp: root_ok_def)
qed

lemma pipe_head_below:
  assumes inv: "pipe_inv m e hs ts R opn D F" and c: "c \<in> set R"
  shows "\<exists>h. hs c = Some h \<and> 0 \<le> h \<and> h < e \<and> h + sizeof_mu_JumpCommand \<le> e \<and> is_jump m h"
proof -
  from inv c obtain h where h: "hs c = Some h" "0 \<le> h" "h + sizeof_mu_JumpCommand \<le> e"
    by (auto simp: pipe_inv_def)
  from pipe_root_target [OF inv c] h have "is_jump m h" by (auto simp: root_ok_def)
  with h J_pos show ?thesis by auto
qed

lemma pipe_agree:
  assumes inv: "pipe_inv m e hs ts R opn D F" and agree: "\<forall>x < e. m' x = m x"
  shows "open_ok m' hs D F opn e"
    and "\<forall>c \<in> set R. c \<notin> set opn \<longrightarrow> closed_ok m' e hs ts D F c"
proof -
  from inv have o: "open_ok m hs D F opn e" and sub: "set opn \<subseteq> set R"
    by (auto simp: pipe_inv_def)
  have key: "(\<forall>x \<in> set (F c). m' x = m x) \<and> (\<forall>h. hs c = Some h \<longrightarrow> is_jump m' h)"
    if c: "c \<in> set opn" for c
  proof (intro conjI allI impI)
    from c have cR: "c \<in> set R" using sub by blast
    show "\<forall>x \<in> set (F c). m' x = m x" using pipe_fp_below [OF inv cR] agree by blast
    fix h assume "hs c = Some h"
    with pipe_head_below [OF inv cR] have "h < e" "is_jump m h" by auto
    with agree show "is_jump m' h" by (auto intro: is_jump_cong)
  qed
  show "open_ok m' hs D F opn e"
    by (rule open_ok_cong [OF o]) (use key in simp)
  show "\<forall>c \<in> set R. c \<notin> set opn \<longrightarrow> closed_ok m' e hs ts D F c"
  proof (intro ballI impI)
    fix c assume cR: "c \<in> set R" and "c \<notin> set opn"
    with inv have "closed_ok m e hs ts D F c" by (auto simp: pipe_inv_def)
    then obtain t where t: "ts c = Some t" "is_jump m t" "t + sizeof_mu_JumpCommand \<le> e"
      "root_ok m hs D F c t" by (auto simp: closed_ok_def)
    have "is_jump m' t" using t J_pos agree by (auto intro: is_jump_cong)
    moreover have "root_ok m' hs D F c t"
    proof (rule root_ok_cong [OF t(4)])
      show "\<forall>x \<in> set (F c). m' x = m x" using pipe_fp_below [OF inv cR] agree by blast
      show "\<forall>h. hs c = Some h \<longrightarrow> is_jump m' h"
        using pipe_head_below [OF inv cR] agree by (auto intro: is_jump_cong)
    qed simp_all
    ultimately show "closed_ok m' e hs ts D F c" using t by (auto simp: closed_ok_def)
  qed
qed

lemma root_ok_DF:
  assumes "root_ok m hs D F c tgt" and "D' c = D c" and "F' c = F c" and "hs' c = hs c"
  shows "root_ok m hs' D' F' c tgt"
  using assms by (simp add: root_ok_def)

lemma closed_ok_DF:
  assumes "closed_ok m e hs ts D F c" and "D' c = D c" and "F' c = F c" and "hs' c = hs c"
    and "ts' c = ts c" and "e \<le> e'"
  shows "closed_ok m e' hs' ts' D' F' c"
proof -
  from assms(1) obtain t where t: "ts c = Some t" "is_jump m t" "t + sizeof_mu_JumpCommand \<le> e"
    "root_ok m hs D F c t" by (auto simp: closed_ok_def)
  have "root_ok m hs' D' F' c t" using t(4) assms(2,3,4) by (rule root_ok_DF)
  with t assms(5,6) show ?thesis
    by (auto simp: closed_ok_def)
qed

lemma open_ok_DF:
  assumes "open_ok m hs D F cs tgt"
    and "\<forall>c \<in> set cs. D' c = D c \<and> F' c = F c \<and> hs' c = hs c"
  shows "open_ok m hs' D' F' cs tgt"
  using assms
proof (induction cs arbitrary: tgt)
  case Nil
  then show ?case by simp
next
  case (Cons c cs)
  from Cons.prems(1) obtain h where r: "root_ok m hs D F c tgt" and h: "hs c = Some h"
    and o: "open_ok m hs D F cs h" by auto
  have "root_ok m hs' D' F' c tgt"
    by (rule root_ok_DF [OF r]) (use Cons.prems(2) in auto)
  moreover have "open_ok m hs' D' F' cs h"
    by (rule Cons.IH [OF o]) (use Cons.prems(2) in auto)
  moreover have "hs' c = Some h" using h Cons.prems(2) by simp
  ultimately show ?case by simp
qed

lemma pipe_tail_below:
  assumes inv: "pipe_inv m e hs ts R opn D F" and c: "c \<in> set R" "c \<notin> set opn"
  shows "\<exists>t. ts c = Some t \<and> t < e \<and> is_jump m t"
proof -
  from inv c have "closed_ok m e hs ts D F c" by (auto simp: pipe_inv_def)
  with J_pos show ?thesis by (auto simp: closed_ok_def)
qed

lemma pipe_step_push:
  assumes inv: "pipe_inv m e hs ts R (c # rest) D F"
    and agree: "\<forall>x < e. m' x = m x"
    and new: "m' e = Some cmd" "cmd_type cmd \<noteq> MU_COMMAND_JUMP" "cmd_size cmd = sz" "0 < sz"
  shows "pipe_inv m' (e + sz) hs ts R (c # rest) (D(c := D c @ [e])) (F(c := F c @ [e]))"
proof -
  let ?D = "D(c := D c @ [e])" and ?F = "F(c := F c @ [e])"
  note ag = pipe_agree [OF inv agree]
  from inv have basic: "0 \<le> e" "distinct R" "distinct (c # rest)" "set (c # rest) \<subseteq> set R"
    and hyg: "\<forall>c' \<in> set R. \<forall>x \<in> set (F c').
        x \<notin> (\<lambda>c. the (ts c)) ` {c' \<in> set R. c' \<notin> set (c # rest)} \<and>
        x \<notin> (\<lambda>c. the (hs c)) ` set (c # rest)"
    and inj: "inj_on (\<lambda>c. the (hs c)) (set R)"
      "inj_on (\<lambda>c. the (ts c)) {c' \<in> set R. c' \<notin> set (c # rest)}"
      "(\<lambda>c. the (hs c)) ` set R \<inter> (\<lambda>c. the (ts c)) ` {c' \<in> set R. c' \<notin> set (c # rest)} = {}"
    and hb: "\<forall>c \<in> set R. \<exists>h. hs c = Some h \<and> 0 \<le> h \<and> h + sizeof_mu_JumpCommand \<le> e"
    and first: "R \<noteq> [] \<longrightarrow> hs (hd R) = Some 0"
    and dnil: "\<forall>c. c \<notin> set R \<longrightarrow> D c = []"
    by (simp_all add: pipe_inv_def)
  have cR: "c \<in> set R" and cr: "c \<notin> set rest" using basic by auto
  from ag(1) obtain h where r: "root_ok m' hs D F c e" and h: "hs c = Some h"
    and o: "open_ok m' hs D F rest h" by auto
  from r h have rh: "0 \<le> h" "is_jump m' h" "path m' (h + sizeof_mu_JumpCommand) (D c) (F c) e"
    "h + sizeof_mu_JumpCommand \<le> e" "\<forall>x \<in> set (F c). h + sizeof_mu_JumpCommand \<le> x \<and> x < e"
    by (auto simp: root_ok_def)
  have "path m' e [e] [e] (e + cmd_size cmd)" using new(1,2) by (rule path_cmd_step)
  then have "path m' e [e] [e] (e + sz)" using new(3) by simp
  from path_append [OF rh(3) this]
  have p: "path m' (h + sizeof_mu_JumpCommand) (D c @ [e]) (F c @ [e]) (e + sz)" .
  have r': "root_ok m' hs ?D ?F c (e + sz)"
    unfolding root_ok_def using h rh p new(4) by (intro exI [of _ h]) auto
  have o': "open_ok m' hs ?D ?F rest h"
    by (rule open_ok_DF [OF o]) (use cr in auto)
  show ?thesis
    unfolding pipe_inv_def
  proof (intro conjI)
    show "0 \<le> e + sz" using basic new(4) by simp
    show "distinct R" "distinct (c # rest)" "set (c # rest) \<subseteq> set R" using basic by simp_all
    show "open_ok m' hs ?D ?F (c # rest) (e + sz)" using r' o' h by simp
    show "\<forall>c' \<in> set R. c' \<notin> set (c # rest) \<longrightarrow> closed_ok m' (e + sz) hs ts ?D ?F c'"
    proof (intro ballI impI)
      fix c' assume c': "c' \<in> set R" "c' \<notin> set (c # rest)"
      with ag(2) have "closed_ok m' e hs ts D F c'" by blast
      then show "closed_ok m' (e + sz) hs ts ?D ?F c'"
        by (rule closed_ok_DF) (use c' new(4) in auto)
    qed
    show "\<forall>c' \<in> set R. \<forall>x \<in> set (?F c').
        x \<notin> (\<lambda>c. the (ts c)) ` {c' \<in> set R. c' \<notin> set (c # rest)} \<and>
        x \<notin> (\<lambda>c. the (hs c)) ` set (c # rest)"
    proof (intro ballI)
      fix c' x assume c': "c' \<in> set R" and x: "x \<in> set (?F c')"
      show "x \<notin> (\<lambda>c. the (ts c)) ` {c' \<in> set R. c' \<notin> set (c # rest)} \<and>
        x \<notin> (\<lambda>c. the (hs c)) ` set (c # rest)"
      proof (cases "x \<in> set (F c')")
        case True
        with hyg c' show ?thesis by blast
      next
        case False
        with x have xe: "x = e" by (auto split: if_splits)
        have "e \<notin> (\<lambda>c. the (ts c)) ` {c' \<in> set R. c' \<notin> set (c # rest)}"
        proof
          assume "e \<in> (\<lambda>c. the (ts c)) ` {c' \<in> set R. c' \<notin> set (c # rest)}"
          then obtain c'' where "c'' \<in> set R" "c'' \<notin> set (c # rest)" "e = the (ts c'')" by auto
          with pipe_tail_below [OF inv this(1,2)] show False by auto
        qed
        moreover have "e \<notin> (\<lambda>c. the (hs c)) ` set (c # rest)"
        proof
          assume "e \<in> (\<lambda>c. the (hs c)) ` set (c # rest)"
          then obtain c'' where "c'' \<in> set R" "e = the (hs c'')" using basic(4) by auto
          with pipe_head_below [OF inv this(1)] show False by auto
        qed
        ultimately show ?thesis using xe by simp
      qed
    qed
    show "inj_on (\<lambda>c. the (hs c)) (set R)"
      "inj_on (\<lambda>c. the (ts c)) {c' \<in> set R. c' \<notin> set (c # rest)}"
      "(\<lambda>c. the (hs c)) ` set R \<inter> (\<lambda>c. the (ts c)) ` {c' \<in> set R. c' \<notin> set (c # rest)} = {}"
      using inj by simp_all
    show "\<forall>c \<in> set R. \<exists>h. hs c = Some h \<and> 0 \<le> h \<and> h + sizeof_mu_JumpCommand \<le> e + sz"
      using hb new(4) by fastforce
    show "R \<noteq> [] \<longrightarrow> hs (hd R) = Some 0" using first .
    show "R = [] \<longrightarrow> e + sz = 0" using cR by auto
    show "\<forall>c'. c' \<notin> set R \<longrightarrow> ?D c' = []" using dnil cR by auto
  qed
qed

lemma pipe_step_begin:
  assumes inv: "pipe_inv m e hs ts R opn D F"
    and fresh: "c \<notin> set R"
    and agree: "\<forall>x < e. m' x = m x"
    and new: "is_jump m' e"
  shows "pipe_inv m' (e + sizeof_mu_JumpCommand) (hs(c := Some e)) ts (R @ [c]) (c # opn) D
           (F(c := []))"
proof -
  let ?hs = "hs(c := Some e)" and ?F = "F(c := [])" and ?J = sizeof_mu_JumpCommand
  note ag = pipe_agree [OF inv agree]
  from inv have basic: "0 \<le> e" "distinct R" "distinct opn" "set opn \<subseteq> set R"
    and hyg: "\<forall>c' \<in> set R. \<forall>x \<in> set (F c').
        x \<notin> (\<lambda>c. the (ts c)) ` {c' \<in> set R. c' \<notin> set opn} \<and>
        x \<notin> (\<lambda>c. the (hs c)) ` set opn"
    and inj: "inj_on (\<lambda>c. the (hs c)) (set R)"
      "inj_on (\<lambda>c. the (ts c)) {c' \<in> set R. c' \<notin> set opn}"
      "(\<lambda>c. the (hs c)) ` set R \<inter> (\<lambda>c. the (ts c)) ` {c' \<in> set R. c' \<notin> set opn} = {}"
    and hb: "\<forall>c \<in> set R. \<exists>h. hs c = Some h \<and> 0 \<le> h \<and> h + sizeof_mu_JumpCommand \<le> e"
    and first: "R \<noteq> [] \<longrightarrow> hs (hd R) = Some 0"
    and empty: "R = [] \<longrightarrow> e = 0"
    and dnil: "\<forall>c. c \<notin> set R \<longrightarrow> D c = []"
    by (simp_all add: pipe_inv_def)
  have co: "c \<notin> set opn" using fresh basic by auto
  have closed_eq: "{c' \<in> set (R @ [c]). c' \<notin> set (c # opn)} = {c' \<in> set R. c' \<notin> set opn}"
    using fresh by auto
  have hlt: "the (hs c') < e" if "c' \<in> set R" for c'
    using pipe_head_below [OF inv that] by auto
  have tlt: "the (ts c') < e" if "c' \<in> set R" "c' \<notin> set opn" for c'
    using pipe_tail_below [OF inv that] by auto
  have r': "root_ok m' ?hs D ?F c (e + ?J)"
    unfolding root_ok_def using dnil fresh new basic(1)
    by (intro exI [of _ e]) (auto intro: path_Nil)
  have o': "open_ok m' ?hs D ?F opn e"
    by (rule open_ok_DF [OF ag(1)]) (use co in auto)
  show ?thesis
    unfolding pipe_inv_def closed_eq
  proof (intro conjI)
    show "0 \<le> e + ?J" using basic J_pos by simp
    show "distinct (R @ [c])" using basic fresh by simp
    show "distinct (c # opn)" using basic co by simp
    show "set (c # opn) \<subseteq> set (R @ [c])" using basic by auto
    show "open_ok m' ?hs D ?F (c # opn) (e + ?J)" using r' o' by simp
    show "\<forall>c' \<in> set (R @ [c]). c' \<notin> set (c # opn) \<longrightarrow> closed_ok m' (e + ?J) ?hs ts D ?F c'"
    proof (intro ballI impI)
      fix c' assume c': "c' \<in> set (R @ [c])" "c' \<notin> set (c # opn)"
      then have "c' \<in> set R" "c' \<notin> set opn" "c' \<noteq> c" by auto
      with ag(2) have "closed_ok m' e hs ts D F c'" by blast
      then show "closed_ok m' (e + ?J) ?hs ts D ?F c'"
        by (rule closed_ok_DF) (use \<open>c' \<noteq> c\<close> J_pos in auto)
    qed
    show "\<forall>c' \<in> set (R @ [c]). \<forall>x \<in> set (?F c').
        x \<notin> (\<lambda>c. the (ts c)) ` {c' \<in> set R. c' \<notin> set opn} \<and>
        x \<notin> (\<lambda>c. the (?hs c)) ` set (c # opn)"
    proof (intro ballI)
      fix c' x assume c': "c' \<in> set (R @ [c])" and x: "x \<in> set (?F c')"
      then have cR: "c' \<in> set R" and xF: "x \<in> set (F c')" by (auto split: if_splits)
      have "x < e" using pipe_fp_below [OF inv cR xF] .
      moreover have "(\<lambda>c. the (?hs c)) ` set opn = (\<lambda>c. the (hs c)) ` set opn"
        using co by (intro image_cong) auto
      ultimately show "x \<notin> (\<lambda>c. the (ts c)) ` {c' \<in> set R. c' \<notin> set opn} \<and>
        x \<notin> (\<lambda>c. the (?hs c)) ` set (c # opn)"
        using hyg cR xF by auto
    qed
    show "inj_on (\<lambda>c. the (?hs c)) (set (R @ [c]))"
    proof (rule inj_onI)
      fix a b assume ab: "a \<in> set (R @ [c])" "b \<in> set (R @ [c])" "the (?hs a) = the (?hs b)"
      show "a = b"
      proof (cases "a = c")
        case True
        show ?thesis
        proof (rule ccontr)
          assume "a \<noteq> b"
          with True ab have "b \<in> set R" "the (hs b) = e" by auto
          with hlt [of b] show False by simp
        qed
      next
        case False
        show ?thesis
        proof (cases "b = c")
          case True
          with False ab have "a \<in> set R" "the (hs a) = e" by auto
          with hlt [of a] show ?thesis by simp
        next
          case bc: False
          with False ab have "a \<in> set R" "b \<in> set R" "the (hs a) = the (hs b)" by auto
          with inj(1) show ?thesis by (auto dest: inj_onD)
        qed
      qed
    qed
    show "inj_on (\<lambda>c. the (ts c)) {c' \<in> set R. c' \<notin> set opn}" using inj(2) .
    show "(\<lambda>c. the (?hs c)) ` set (R @ [c]) \<inter> (\<lambda>c. the (ts c)) ` {c' \<in> set R. c' \<notin> set opn} = {}"
    proof -
      have "(\<lambda>c. the (?hs c)) ` set (R @ [c]) = insert e ((\<lambda>c. the (hs c)) ` set R)"
        using fresh by auto
      moreover have "e \<notin> (\<lambda>c. the (ts c)) ` {c' \<in> set R. c' \<notin> set opn}"
        using tlt by force
      ultimately show ?thesis using inj(3) by auto
    qed
    show "\<forall>c' \<in> set (R @ [c]). \<exists>h. ?hs c' = Some h \<and> 0 \<le> h \<and> h + ?J \<le> e + ?J"
      using hb basic(1) J_pos by fastforce
    show "R @ [c] \<noteq> [] \<longrightarrow> ?hs (hd (R @ [c])) = Some 0"
    proof (cases "R = []")
      case True
      with empty show ?thesis by simp
    next
      case False
      then have "hd (R @ [c]) = hd R" "hd R \<in> set R" by simp_all
      with first False fresh show ?thesis by auto
    qed
    show "R @ [c] = [] \<longrightarrow> e + ?J = 0" by simp
    show "\<forall>c'. c' \<notin> set (R @ [c]) \<longrightarrow> D c' = []" using dnil by simp
  qed
qed

lemma pipe_step_end:
  assumes inv: "pipe_inv m e hs ts R (c # rest) D F"
    and h: "hs c = Some h"
    and agree: "\<forall>x < e. x \<noteq> h \<longrightarrow> m' x = m x"
    and tail: "is_jump m' e"
    and head: "\<exists>jc. m h = Some jc \<and>
        m' h = Some (Command (cmd_type jc) (cmd_size jc)
                       (JumpDst (Some (e + sizeof_mu_JumpCommand))))"
  shows "pipe_inv m' (e + sizeof_mu_JumpCommand) hs (ts(c := Some e)) R rest D
           (case rest of [] \<Rightarrow> F | p # q \<Rightarrow> F(p := F p @ [h]))"
proof -
  let ?ts = "ts(c := Some e)" and ?J = sizeof_mu_JumpCommand
  let ?F = "case rest of [] \<Rightarrow> F | p # q \<Rightarrow> F(p := F p @ [h])"
  from inv have basic: "0 \<le> e" "distinct R" "distinct (c # rest)" "set (c # rest) \<subseteq> set R"
    and opn: "open_ok m hs D F (c # rest) e"
    and cls: "\<forall>c' \<in> set R. c' \<notin> set (c # rest) \<longrightarrow> closed_ok m e hs ts D F c'"
    and hyg: "\<forall>c' \<in> set R. \<forall>x \<in> set (F c').
        x \<notin> (\<lambda>c. the (ts c)) ` {c' \<in> set R. c' \<notin> set (c # rest)} \<and>
        x \<notin> (\<lambda>c. the (hs c)) ` set (c # rest)"
    and inj: "inj_on (\<lambda>c. the (hs c)) (set R)"
      "inj_on (\<lambda>c. the (ts c)) {c' \<in> set R. c' \<notin> set (c # rest)}"
      "(\<lambda>c. the (hs c)) ` set R \<inter> (\<lambda>c. the (ts c)) ` {c' \<in> set R. c' \<notin> set (c # rest)} = {}"
    and hb: "\<forall>c \<in> set R. \<exists>h. hs c = Some h \<and> 0 \<le> h \<and> h + sizeof_mu_JumpCommand \<le> e"
    and first: "R \<noteq> [] \<longrightarrow> hs (hd R) = Some 0"
    and dnil: "\<forall>c. c \<notin> set R \<longrightarrow> D c = []"
    by (simp_all add: pipe_inv_def)
  have cR: "c \<in> set R" and cr: "c \<notin> set rest" and restR: "set rest \<subseteq> set R"
    using basic by auto
  have closed_eq: "{c' \<in> set R. c' \<notin> set rest} = insert c {c' \<in> set R. c' \<notin> set (c # rest)}"
    using cR cr by auto
  have hlt: "the (hs c') < e" if "c' \<in> set R" for c'
    using pipe_head_below [OF inv that] by auto
  have tlt: "the (ts c') < e" if "c' \<in> set R" "c' \<notin> set (c # rest)" for c'
    using pipe_tail_below [OF inv that] by auto
  have he: "h < e" using hlt [OF cR] h by simp
  have hj: "is_jump m' h"
    using pipe_head_below [OF inv cR] h head by (auto simp: is_jump_def)
  have fp_agree: "\<forall>x \<in> set (F c'). m' x = m x" if c': "c' \<in> set R" for c'
  proof
    fix x assume x: "x \<in> set (F c')"
    have "x < e" using pipe_fp_below [OF inv c' x] .
    moreover have "x \<noteq> h" using hyg c' x h by force
    ultimately show "m' x = m x" using agree by simp
  qed
  have head_jump: "is_jump m' h'" if c': "c' \<in> set R" "hs c' = Some h'" for c' h'
  proof (cases "h' = h")
    case True
    with hj show ?thesis by simp
  next
    case False
    from pipe_head_below [OF inv c'(1)] c'(2) have "h' < e" "is_jump m h'" by auto
    with False agree show ?thesis by (auto intro: is_jump_cong)
  qed
  have tail_jump: "is_jump m' t" if c': "c' \<in> set R" "c' \<notin> set (c # rest)" "ts c' = Some t"
    for c' t
  proof -
    from pipe_tail_below [OF inv c'(1,2)] c'(3) have "t < e" "is_jump m t" by auto
    moreover have "t \<noteq> h" using inj(3) c' cR h by force
    ultimately show ?thesis using agree by (auto intro: is_jump_cong)
  qed
  have transfer: "root_ok m' hs D F c' tgt" if "root_ok m hs D F c' tgt" "c' \<in> set R" for c' tgt
    by (rule root_ok_cong [OF that(1)]) (use fp_agree [OF that(2)] head_jump [OF that(2)] in auto)
  from opn h have rc: "root_ok m hs D F c e" and orest: "open_ok m hs D F rest h" by auto
  have orest': "open_ok m' hs D F rest h"
    by (rule open_ok_cong [OF orest]) (use fp_agree head_jump restR in auto)
  have jstep: "path m' h [] [h] (e + ?J)"
  proof -
    from head obtain jc where jc: "m h = Some jc"
      "m' h = Some (Command (cmd_type jc) (cmd_size jc) (JumpDst (Some (e + ?J))))" by blast
    from pipe_head_below [OF inv cR] h jc have "cmd_type jc = MU_COMMAND_JUMP"
      by (auto simp: is_jump_def)
    with jc(2) show ?thesis
      by (intro path_jump_step [where c = "Command (cmd_type jc) (cmd_size jc)
                       (JumpDst (Some (e + ?J)))"]) auto
  qed
  have onew: "open_ok m' hs D ?F rest (e + ?J)"
  proof (cases rest)
    case Nil
    then show ?thesis by simp
  next
    case (Cons p q)
    with orest' obtain hp where rp: "root_ok m' hs D F p h" and hp: "hs p = Some hp"
      and oq: "open_ok m' hs D F q hp" by auto
    from rp hp have rph: "0 \<le> hp" "is_jump m' hp" "path m' (hp + ?J) (D p) (F p) h"
      "hp + ?J \<le> h" "\<forall>x \<in> set (F p). hp + ?J \<le> x \<and> x < h"
      by (auto simp: root_ok_def)
    have pq: "p \<notin> set q" using basic(3) Cons by simp
    from path_append [OF rph(3) jstep]
    have "path m' (hp + ?J) (D p) (F p @ [h]) (e + ?J)" by simp
    then have "root_ok m' hs D (F(p := F p @ [h])) p (e + ?J)"
      unfolding root_ok_def using hp rph he J_pos by (intro exI [of _ hp]) auto
    moreover have "open_ok m' hs D (F(p := F p @ [h])) q hp"
      by (rule open_ok_DF [OF oq]) (use pq in auto)
    ultimately show ?thesis using Cons hp by simp
  qed
  have Fsame: "?F c' = F c'" if "c' \<notin> set rest" for c'
    using that by (cases rest) auto
  have Fcases: "x \<in> set (F c') \<or> x = h" if "x \<in> set (?F c')" for c' x
    using that by (cases rest) (auto split: if_splits)
  show ?thesis
    unfolding pipe_inv_def closed_eq
  proof (intro conjI)
    show "0 \<le> e + ?J" using basic J_pos by simp
    show "distinct R" "distinct rest" "set rest \<subseteq> set R" using basic by auto
    show "open_ok m' hs D ?F rest (e + ?J)" by (rule onew)
    show "\<forall>c' \<in> set R. c' \<notin> set rest \<longrightarrow> closed_ok m' (e + ?J) hs ?ts D ?F c'"
    proof (intro ballI impI)
      fix c' assume c': "c' \<in> set R" "c' \<notin> set rest"
      show "closed_ok m' (e + ?J) hs ?ts D ?F c'"
      proof (cases "c' = c")
        case True
        have "root_ok m' hs D ?F c e"
          by (rule root_ok_DF [OF transfer [OF rc cR]]) (use Fsame [OF cr] in auto)
        with True tail show ?thesis by (auto simp: closed_ok_def)
      next
        case False
        with c' have nc: "c' \<notin> set (c # rest)" by simp
        with cls c' obtain t where t: "ts c' = Some t" "t + ?J \<le> e" "root_ok m hs D F c' t"
          by (auto simp: closed_ok_def)
        have "root_ok m' hs D ?F c' t"
          by (rule root_ok_DF [OF transfer [OF t(3) c'(1)]]) (use Fsame [OF c'(2)] in auto)
        with t tail_jump [OF c'(1) nc t(1)] False J_pos show ?thesis
          by (auto simp: closed_ok_def)
      qed
    qed
    show "\<forall>c' \<in> set R. \<forall>x \<in> set (?F c').
        x \<notin> (\<lambda>c. the (?ts c)) ` insert c {c' \<in> set R. c' \<notin> set (c # rest)} \<and>
        x \<notin> (\<lambda>c. the (hs c)) ` set rest"
    proof (intro ballI)
      fix c' x assume c': "c' \<in> set R" and x: "x \<in> set (?F c')"
      have timg: "(\<lambda>c. the (?ts c)) ` insert c {c' \<in> set R. c' \<notin> set (c # rest)}
          = insert e ((\<lambda>c. the (ts c)) ` {c' \<in> set R. c' \<notin> set (c # rest)})"
        by auto
      show "x \<notin> (\<lambda>c. the (?ts c)) ` insert c {c' \<in> set R. c' \<notin> set (c # rest)} \<and>
        x \<notin> (\<lambda>c. the (hs c)) ` set rest"
      proof (rule disjE [OF Fcases [OF x]])
        assume xF: "x \<in> set (F c')"
        have "x < e" using pipe_fp_below [OF inv c' xF] .
        with hyg c' xF show ?thesis unfolding timg by auto
      next
        assume xh: "x = h"
        have "h \<notin> (\<lambda>c. the (ts c)) ` {c' \<in> set R. c' \<notin> set (c # rest)}"
          using inj(3) cR h by force
        moreover have "h \<notin> (\<lambda>c. the (hs c)) ` set rest"
        proof
          assume "h \<in> (\<lambda>c. the (hs c)) ` set rest"
          then obtain p where p: "p \<in> set rest" "the (hs p) = the (hs c)" using h by auto
          with restR cR inj(1) have "p = c" by (auto dest: inj_onD)
          with p cr show False by simp
        qed
        ultimately show ?thesis unfolding timg using xh he by auto
      qed
    qed
    show "inj_on (\<lambda>c. the (hs c)) (set R)" using inj(1) .
    show "inj_on (\<lambda>c. the (?ts c)) (insert c {c' \<in> set R. c' \<notin> set (c # rest)})"
    proof (rule inj_onI)
      fix a b
      assume ab: "a \<in> insert c {c' \<in> set R. c' \<notin> set (c # rest)}"
        "b \<in> insert c {c' \<in> set R. c' \<notin> set (c # rest)}" "the (?ts a) = the (?ts b)"
      show "a = b"
      proof (cases "a = c")
        case True
        show ?thesis
        proof (rule ccontr)
          assume "a \<noteq> b"
          with True ab have "b \<in> set R" "b \<notin> set (c # rest)" "the (ts b) = e" by auto
          with tlt [of b] show False by simp
        qed
      next
        case False
        show ?thesis
        proof (cases "b = c")
          case True
          with False ab have "a \<in> set R" "a \<notin> set (c # rest)" "the (ts a) = e" by auto
          with tlt [of a] show ?thesis by simp
        next
          case bc: False
          with False ab have "a \<in> {c' \<in> set R. c' \<notin> set (c # rest)}"
            "b \<in> {c' \<in> set R. c' \<notin> set (c # rest)}" "the (ts a) = the (ts b)" by auto
          with inj(2) show ?thesis by (auto dest: inj_onD)
        qed
      qed
    qed
    show "(\<lambda>c. the (hs c)) ` set R \<inter>
        (\<lambda>c. the (?ts c)) ` insert c {c' \<in> set R. c' \<notin> set (c # rest)} = {}"
    proof -
      have "(\<lambda>c. the (?ts c)) ` insert c {c' \<in> set R. c' \<notin> set (c # rest)}
          = insert e ((\<lambda>c. the (ts c)) ` {c' \<in> set R. c' \<notin> set (c # rest)})"
        by auto
      moreover have "e \<notin> (\<lambda>c. the (hs c)) ` set R" using hlt by force
      ultimately show ?thesis using inj(3) by auto
    qed
    show "\<forall>c \<in> set R. \<exists>h. hs c = Some h \<and> 0 \<le> h \<and> h + ?J \<le> e + ?J"
      using hb J_pos by fastforce
    show "R \<noteq> [] \<longrightarrow> hs (hd R) = Some 0" using first .
    show "R = [] \<longrightarrow> e + ?J = 0" using cR by auto
    show "\<forall>c. c \<notin> set R \<longrightarrow> D c = []" using dnil .
  qed
qed

section \<open>A whole frame\<close>

lemma cur_root_open_roots:
  "cur_root st = (case open_roots st of [] \<Rightarrow> None | c # cs \<Rightarrow> Some c)"
  by (induction st) (auto simp: open_roots_def)

lemma frame_inv_same_pipe:
  assumes "frame_inv ctx base st R D F" and "same_pipe ctx ctx1"
    and "container_stack ctx1 = base @ rev (map fst st1)" and "open_roots st1 = open_roots st"
  shows "frame_inv ctx1 base st1 R D F"
  using assms by (simp add: frame_inv_def same_pipe_def)

lemma direct_from_Push:
  "direct_from (Push ty sz body # ops) st a c =
     (if cur_root st = Some c then [a] else []) @ direct_from ops st (a + sz) c"
  by (simp add: direct_from_def)

lemma run_op_neutral:
  assumes "run_op op ctx = Inr ctx1"
    and "op = PushId d \<or> op = PopId \<or> op = PushLayout b s \<or> op = PushClip r \<or> op = PopClip \<or>
         op = BringToFront k"
  shows "same_pipe ctx ctx1 \<and> container_stack ctx1 = container_stack ctx"
  using assms mu_push_id_pipe mu_pop_id_pipe push_layout_pipe mu_push_clip_rect_pipe
    mu_pop_clip_rect_pipe mu_bring_to_front_pipe
  by (elim disjE) auto

lemma pipe_D_below:
  assumes inv: "pipe_inv m e hs ts R opn D F" and c: "c \<in> set R" and x: "x \<in> set (D c)"
  shows "x < e" and "x \<in> set (F c)"
proof -
  from pipe_root_target [OF inv c] obtain t' where "root_ok m hs D F c t'" by blast
  then obtain h where "path m (h + sizeof_mu_JumpCommand) (D c) (F c) t'"
    by (auto simp: root_ok_def)
  from path_cmds_in_fp [OF this] x show "x \<in> set (F c)" by auto
  from pipe_fp_below [OF inv c this] show "x < e" .
qed

lemma pipe_D_not_open_head:
  assumes inv: "pipe_inv m e hs ts R opn D F" and c: "c \<in> set R" and x: "x \<in> set (D c)"
    and o: "c' \<in> set opn" and h: "hs c' = Some h"
  shows "x \<noteq> h"
proof -
  from pipe_D_below(2) [OF inv c x] have "x \<in> set (F c)" .
  with inv c have "x \<notin> (\<lambda>c. the (hs c)) ` set opn" by (simp add: pipe_inv_def)
  with o h show ?thesis by force
qed

lemma run_frame_inv:
  assumes "run_frame ops ctx = Inr ctx'" and "well_nested ops st"
    and "frame_inv ctx base st R D F" and "distinct (R @ roots ops)"
    and "\<forall>c \<in> set (R @ roots ops). c < length (containers ctx)"
  shows "(\<exists>st' D' F'. frame_inv ctx' base st' (R @ roots ops) D' F' \<and>
           (\<forall>c. D' c = D c @ direct_from ops st (command_idx ctx) c)) \<and>
         (\<forall>c \<in> set R. \<forall>x \<in> set (D c). command_list ctx' x = command_list ctx x) \<and>
         (\<forall>(r, a, cmd) \<in> set (pushes ops st (command_idx ctx)). command_list ctx' a = Some cmd)"
  using assms
proof (induction ops arbitrary: ctx st R D F)
  case Nil
  then show ?case by (auto simp: direct_from_def)
next
  case (Cons op ops)
  from Cons.prems(1) obtain ctx1 where op: "run_op op ctx = Inr ctx1"
    and rest: "run_frame ops ctx1 = Inr ctx'"
    by (auto simp: and_then_Inr)
  from Cons.prems(3) have stack: "container_stack ctx = base @ rev (map fst st)"
    and rl: "root_list ctx = R"
    and inv: "pipe_inv (command_list ctx) (command_idx ctx) (heads ctx) (tails ctx) R
                (open_roots st) D F"
    by (simp_all add: frame_inv_def)
  have finish: ?case
    if wn: "well_nested ops st1" and fi: "frame_inv ctx1 base st1 R1 D1 F1"
      and R1: "R1 @ roots ops = R @ roots (op # ops)"
      and len: "length (containers ctx1) = length (containers ctx)"
      and keep: "\<forall>c \<in> set R. \<forall>x \<in> set (D c). command_list ctx1 x = command_list ctx x"
      and sub: "set R \<subseteq> set R1" "\<forall>c \<in> set R. set (D c) \<subseteq> set (D1 c)"
      and dd: "\<forall>c'. D1 c' @ direct_from ops st1 (command_idx ctx1) c' =
                 D c' @ direct_from (op # ops) st (command_idx ctx) c'"
      and pp: "pushes (op # ops) st (command_idx ctx) = new @ pushes ops st1 (command_idx ctx1)"
      and nw: "\<forall>(r, a, cmd) \<in> set new. command_list ctx1 a = Some cmd \<and>
                 (\<exists>c \<in> set R1. a \<in> set (D1 c))"
    for st1 R1 D1 F1 new
  proof -
    have d1: "distinct (R1 @ roots ops)" using Cons.prems(4) R1 by simp
    have l1: "\<forall>c \<in> set (R1 @ roots ops). c < length (containers ctx1)"
      using Cons.prems(5) R1 len by simp
    from Cons.IH [OF rest wn fi d1 l1]
    obtain st' D' F' where r: "frame_inv ctx' base st' (R1 @ roots ops) D' F'"
      "\<forall>c'. D' c' = D1 c' @ direct_from ops st1 (command_idx ctx1) c'"
      and k1: "\<forall>c \<in> set R1. \<forall>x \<in> set (D1 c). command_list ctx' x = command_list ctx1 x"
      and c1: "\<forall>(r, a, cmd) \<in> set (pushes ops st1 (command_idx ctx1)).
                 command_list ctx' a = Some cmd"
      by blast
    have a: "\<exists>st' D' F'. frame_inv ctx' base st' (R @ roots (op # ops)) D' F' \<and>
           (\<forall>c. D' c = D c @ direct_from (op # ops) st (command_idx ctx) c)"
      using r dd R1 by auto
    have b: "\<forall>c \<in> set R. \<forall>x \<in> set (D c). command_list ctx' x = command_list ctx x"
      using k1 keep sub by (metis subsetD)
    have c: "\<forall>(r, a, cmd) \<in> set (pushes (op # ops) st (command_idx ctx)).
               command_list ctx' a = Some cmd"
      unfolding pp using c1 nw k1 by fastforce
    from a b c show ?thesis by blast
  qed
  have below: "\<forall>c \<in> set R. \<forall>x \<in> set (D c). x < command_idx ctx"
    using pipe_D_below(1) [OF inv] by blast
  have neutral: ?case
    if n: "op = PushId d \<or> op = PopId \<or> op = PushLayout b s \<or> op = PushClip r \<or>
      op = PopClip \<or> op = BringToFront k" for d b s r k
  proof -
    from run_op_neutral [OF op n]
    have sp: "same_pipe ctx ctx1" and cs: "container_stack ctx1 = container_stack ctx"
      by simp_all
    from Cons.prems(2) n have wn: "well_nested ops st" by auto
    have fi: "frame_inv ctx1 base st R D F"
      by (rule frame_inv_same_pipe [OF Cons.prems(3) sp]) (use cs stack in auto)
    have ro: "roots (op # ops) = roots ops" using n by auto
    have pe: "pushes (op # ops) st (command_idx ctx) = [] @ pushes ops st (command_idx ctx1)"
      using n sp by (auto simp: same_pipe_def)
    show ?thesis
      by (rule finish [OF wn fi _ _ _ _ _ _ pe])
        (use sp ro pe in \<open>auto simp: same_pipe_def direct_from_def\<close>)
  qed
  show ?case
  proof (cases op)
    case (Push ty sz body)
    from Cons.prems(2) Push obtain c where c: "cur_root st = Some c"
      and ok: "ty \<noteq> MU_COMMAND_JUMP" "0 < sz" and wn: "well_nested ops st"
      by auto
    from c obtain rs where opn: "open_roots st = c # rs"
      by (auto simp: cur_root_open_roots split: list.splits)
    from inv opn have cR: "c \<in> set R" by (auto simp: pipe_inv_def)
    note eff = push_effect [OF op [unfolded Push]]
    have "pipe_inv (command_list ctx1) (command_idx ctx + sz) (heads ctx) (tails ctx) R (c # rs)
            (D(c := D c @ [command_idx ctx])) (F(c := F c @ [command_idx ctx]))"
      by (rule pipe_step_push [OF inv [unfolded opn], where cmd = "Command ty sz body"])
        (use eff ok in auto)
    then have fi: "frame_inv ctx1 base st R (D(c := D c @ [command_idx ctx]))
        (F(c := F c @ [command_idx ctx]))"
      using eff stack rl opn by (simp add: frame_inv_def)
    have pe: "pushes (op # ops) st (command_idx ctx) =
        [(cur_root st, command_idx ctx, Command ty sz body)] @ pushes ops st (command_idx ctx1)"
      using eff by (simp add: Push)
    show ?thesis
    proof (rule finish [OF wn fi _ _ _ _ _ _ pe])
      show "\<forall>c'. (D(c := D c @ [command_idx ctx])) c' @ direct_from ops st (command_idx ctx1) c' =
                 D c' @ direct_from (op # ops) st (command_idx ctx) c'"
        using eff c by (simp add: Push direct_from_Push)
      show "\<forall>(r, a, cmd) \<in> set [(cur_root st, command_idx ctx, Command ty sz body)].
              command_list ctx1 a = Some cmd \<and>
              (\<exists>c' \<in> set R. a \<in> set ((D(c := D c @ [command_idx ctx])) c'))"
        using eff cR by auto
    qed (use eff below Push in auto)
  next
    case (BeginRoot c)
    have fresh: "c \<notin> set R" and clen: "c < length (containers ctx)"
      using Cons.prems(4,5) BeginRoot by auto
    from Cons.prems(2) BeginRoot have wn: "well_nested ops ((c, True) # st)" by simp
    note eff = begin_root_effect [OF op [unfolded BeginRoot run_op.simps] clen]
    have "pipe_inv (command_list ctx1) (command_idx ctx + sizeof_mu_JumpCommand)
            ((heads ctx)(c := Some (command_idx ctx))) (tails ctx) (R @ [c])
            (c # open_roots st) D (F(c := []))"
      by (rule pipe_step_begin [OF inv fresh]) (use eff in \<open>auto simp: is_jump_def\<close>)
    then have fi: "frame_inv ctx1 base ((c, True) # st) (R @ [c]) D (F(c := []))"
      using eff stack rl by (simp add: frame_inv_def open_roots_def)
    have pe: "pushes (op # ops) st (command_idx ctx) =
        [] @ pushes ops ((c, True) # st) (command_idx ctx1)"
      using eff by (simp add: BeginRoot)
    show ?thesis
      by (rule finish [OF wn fi _ _ _ _ _ _ pe])
        (use eff below BeginRoot in \<open>auto simp: direct_from_def\<close>)
  next
    case EndRoot
    from Cons.prems(2) EndRoot obtain c st0 where st: "st = (c, True) # st0"
      and wn: "well_nested ops st0"
      by (auto split: list.splits bool.splits prod.splits)
    have opn: "open_roots st = c # open_roots st0" using st by (simp add: open_roots_def)
    have lastc: "last (container_stack ctx) = c" using stack st by simp
    from inv have "set (open_roots st) \<subseteq> set R" by (simp add: pipe_inv_def)
    then have cR: "c \<in> set R" using opn by simp
    then have clen: "last (container_stack ctx) < length (containers ctx)"
      using Cons.prems(5) lastc by simp
    note eff = end_root_effect [OF op [unfolded EndRoot run_op.simps] clen, unfolded lastc]
    from eff obtain h where h: "heads ctx c = Some h"
      and ag: "\<forall>x < command_idx ctx. x \<noteq> h \<longrightarrow> command_list ctx1 x = command_list ctx x"
      and tl: "h \<noteq> command_idx ctx \<longrightarrow> command_list ctx1 (command_idx ctx) =
                 Some (Command MU_COMMAND_JUMP sizeof_mu_JumpCommand (JumpDst None))"
      and hd: "h < command_idx ctx \<longrightarrow>
                 (\<exists>jc. command_list ctx h = Some jc \<and>
                    command_list ctx1 h =
                      Some (Command (cmd_type jc) (cmd_size jc)
                              (JumpDst (Some (command_idx ctx + sizeof_mu_JumpCommand)))))"
      by blast
    from pipe_head_below [OF inv cR] h have hlt: "h < command_idx ctx" by simp
    have "pipe_inv (command_list ctx1) (command_idx ctx + sizeof_mu_JumpCommand) (heads ctx)
            ((tails ctx)(c := Some (command_idx ctx))) R (open_roots st0) D
            (case open_roots st0 of [] \<Rightarrow> F | p # q \<Rightarrow> F(p := F p @ [h]))"
      by (rule pipe_step_end [OF inv [unfolded opn] h ag])
        (use tl hd hlt in \<open>auto simp: is_jump_def\<close>)
    then have fi: "frame_inv ctx1 base st0 R D
        (case open_roots st0 of [] \<Rightarrow> F | p # q \<Rightarrow> F(p := F p @ [h]))"
      using eff stack rl st by (simp add: frame_inv_def butlast_append)
    have nh: "\<forall>c' \<in> set R. \<forall>x \<in> set (D c'). x \<noteq> h"
      using pipe_D_not_open_head [OF inv _ _ _ h] opn by auto
    have keep: "\<forall>c \<in> set R. \<forall>x \<in> set (D c). command_list ctx1 x = command_list ctx x"
      using nh below ag by blast
    have pe: "pushes (op # ops) st (command_idx ctx) = [] @ pushes ops st0 (command_idx ctx1)"
      using eff st by (simp add: EndRoot)
    show ?thesis
      by (rule finish [OF wn fi _ _ keep _ _ _ pe])
        (use eff st EndRoot in \<open>auto simp: direct_from_def\<close>)
  next
    case (BeginPanel c)
    from Cons.prems(2) BeginPanel have wn: "well_nested ops ((c, False) # st)" by simp
    from op BeginPanel have c1: "ctx1 = ctx \<lparr> container_stack := container_stack ctx @ [c] \<rparr>"
      by (auto split: if_splits)
    have sp: "same_pipe ctx ctx1"
      using heads_tails_cong [of ctx1 ctx] c1 by (simp add: same_pipe_def)
    have fi: "frame_inv ctx1 base ((c, False) # st) R D F"
      by (rule frame_inv_same_pipe [OF Cons.prems(3) sp])
        (use c1 stack in \<open>auto simp: open_roots_def\<close>)
    have pe: "pushes (op # ops) st (command_idx ctx) =
        [] @ pushes ops ((c, False) # st) (command_idx ctx1)"
      using sp by (simp add: BeginPanel same_pipe_def)
    show ?thesis
      by (rule finish [OF wn fi _ _ _ _ _ _ pe])
        (use sp BeginPanel in \<open>auto simp: direct_from_def same_pipe_def\<close>)
  next
    case EndPanel
    from Cons.prems(2) EndPanel obtain c st0 where st: "st = (c, False) # st0"
      and wn: "well_nested ops st0"
      by (auto split: list.splits bool.splits prod.splits)
    from pop_container_pipe [OF op [unfolded EndPanel run_op.simps]]
    have sp: "same_pipe ctx ctx1" and cs: "container_stack ctx1 = butlast (container_stack ctx)"
      by simp_all
    have fi: "frame_inv ctx1 base st0 R D F"
      by (rule frame_inv_same_pipe [OF Cons.prems(3) sp])
        (use cs stack st in \<open>auto simp: open_roots_def butlast_append\<close>)
    have pe: "pushes (op # ops) st (command_idx ctx) = [] @ pushes ops st0 (command_idx ctx1)"
      using sp st by (simp add: EndPanel same_pipe_def)
    show ?thesis
      by (rule finish [OF wn fi _ _ _ _ _ _ pe])
        (use sp st EndPanel in \<open>auto simp: direct_from_def same_pipe_def\<close>)
  qed (use neutral in blast)+
qed

section \<open>The jump chain of \<open>mu_end\<close>\<close>

lemma set_jump_dst_Inr:
  "set_jump_dst m p d = Inr m' \<Longrightarrow>
     \<exists>a c. p = Some a \<and> m a = Some c \<and> m' = m(a \<mapsto> Command (cmd_type c) (cmd_size c) (JumpDst d))"
  by (auto simp: set_jump_dst_def split: option.splits)

lemma is_jump_patch:
  "m a = Some c \<Longrightarrow> is_jump m x \<Longrightarrow>
     is_jump (m(a \<mapsto> Command (cmd_type c) (cmd_size c) b)) x"
  by (auto simp: is_jump_def)

lemma closed_ok_patch:
  assumes "closed_ok m e hs ts D F c" and "\<forall>x \<in> set (F c). m' x = m x"
    and "\<forall>x. is_jump m x \<longrightarrow> is_jump m' x"
  shows "closed_ok m' e hs ts D F c"
proof -
  from assms(1) obtain t where t: "ts c = Some t" "is_jump m t" "t + sizeof_mu_JumpCommand \<le> e"
    "root_ok m hs D F c t"
    by (auto simp: closed_ok_def)
  have "root_ok m' hs D F c t"
    using t(4) assms(2,3) by (auto simp: root_ok_def intro: path_cong)
  with t assms(3) show ?thesis by (auto simp: closed_ok_def)
qed

lemma set_root_jumps_path:
  assumes "set_root_jumps cs e prev rs m = Inr m'"
    and hs: "\<forall>c. hs c = c_head (cs ! c)" and ts: "\<forall>c. ts c = c_tail (cs ! c)"
    and "rs \<noteq> []" and "distinct rs"
    and "\<forall>c \<in> set rs. closed_ok m e hs ts D F c"
    and "(case prev of None \<Rightarrow> Some 0 | Some p \<Rightarrow> ts p) = Some s"
    and "is_jump m s" and "s < e"
    and "\<forall>c \<in> set rs. \<forall>x \<in> set (F c). x \<noteq> s \<and> x \<notin> (\<lambda>c. the (ts c)) ` set rs"
    and "inj_on (\<lambda>c. the (ts c)) (set rs)" and "s \<notin> (\<lambda>c. the (ts c)) ` set rs"
  shows "(\<exists>fp. path m' s (concat (map D rs)) fp e \<and> (\<forall>x \<in> set fp. x < e)) \<and>
         (\<forall>x. x \<noteq> s \<and> x \<notin> (\<lambda>c. the (ts c)) ` set rs \<longrightarrow> m' x = m x) \<and>
         (\<forall>x. is_jump m x \<longrightarrow> is_jump m' x)"
  using assms(1,4-)
proof (induction rs arbitrary: prev m s)
  case Nil
  then show ?case by simp
next
  case (Cons cnt rest)
  from Cons.prems(4) have "closed_ok m e hs ts D F cnt" by simp
  then obtain t h where t: "ts cnt = Some t" "is_jump m t" "t + sizeof_mu_JumpCommand \<le> e"
    and h: "hs cnt = Some h" "0 \<le> h" "is_jump m h"
    and p: "path m (h + sizeof_mu_JumpCommand) (D cnt) (F cnt) t"
    and hb: "h + sizeof_mu_JumpCommand \<le> t"
    and fb: "\<forall>x \<in> set (F cnt). h + sizeof_mu_JumpCommand \<le> x \<and> x < t"
    by (auto simp: closed_ok_def root_ok_def)
  have ptr: "(case prev of None \<Rightarrow> Some 0 | Some p \<Rightarrow> c_tail (cs ! p)) = Some s"
    using Cons.prems(5) ts by (simp split: option.splits)
  have ch: "c_head (cs ! cnt) = Some h" and ct: "c_tail (cs ! cnt) = Some t"
    using h(1) t(1) hs ts by simp_all
  from Cons.prems(1) obtain m1 m2 where
    s1: "set_jump_dst m (Some s) (Some (h + sizeof_mu_JumpCommand)) = Inr m1"
    and s2': "(if rest = [] then set_jump_dst m1 (c_tail (cs ! cnt)) (Some e) else Inr m1) = Inr m2"
    and s3: "set_root_jumps cs e (Some cnt) rest m2 = Inr m'"
    by (auto simp: ch ptr and_then_Inr)
  from s2' have s2: "(if rest = [] then set_jump_dst m1 (Some t) (Some e) else Inr m1) = Inr m2"
    by (simp add: ct split: if_splits)
  from set_jump_dst_Inr [OF s1] obtain jc where jc: "m s = Some jc"
    and m1: "m1 = m(s \<mapsto> Command (cmd_type jc) (cmd_size jc)
                      (JumpDst (Some (h + sizeof_mu_JumpCommand))))"
    by auto
  from Cons.prems(6) jc have jcj: "cmd_type jc = MU_COMMAND_JUMP" by (simp add: is_jump_def)
  have mono1: "\<forall>x. is_jump m x \<longrightarrow> is_jump m1 x"
    unfolding m1 using jc by (auto intro: is_jump_patch)
  have st: "s \<noteq> t" using Cons.prems(10) t(1) by force
  have Fs: "\<forall>x \<in> set (F cnt). x \<noteq> s \<and> x \<noteq> t"
    using Cons.prems(8) t(1) by force
  have tlt: "t < e" using t(3) J_pos by simp
  show ?case
  proof (cases "rest = []")
    case True
    with s2 s3 have m2: "set_jump_dst m1 (Some t) (Some e) = Inr m'" by simp
    from set_jump_dst_Inr [OF m2] obtain tc where tc: "m1 t = Some tc"
      and m': "m' = m1(t \<mapsto> Command (cmd_type tc) (cmd_size tc) (JumpDst (Some e)))"
      by auto
    from mono1 t(2) tc have tcj: "cmd_type tc = MU_COMMAND_JUMP" by (auto simp: is_jump_def)
    have p1: "path m' s [] [s] (h + sizeof_mu_JumpCommand)"
      by (rule path_jump_step [where c = "Command (cmd_type jc) (cmd_size jc)
            (JumpDst (Some (h + sizeof_mu_JumpCommand)))"])
        (use m' m1 st jcj in auto)
    have p2: "path m' (h + sizeof_mu_JumpCommand) (D cnt) (F cnt) t"
      by (rule path_cong [OF p]) (use Fs m' m1 in auto)
    have p3: "path m' t [] [t] e"
      by (rule path_jump_step [where c = "Command (cmd_type tc) (cmd_size tc)
            (JumpDst (Some e))"])
        (use m' tcj in auto)
    from path_append [OF path_append [OF p1 p2] p3]
    have "path m' s (concat (map D (cnt # rest))) ([s] @ F cnt @ [t]) e"
      using True by simp
    moreover have "\<forall>x \<in> set ([s] @ F cnt @ [t]). x < e"
      using Cons.prems(7) fb tlt by auto
    moreover have "\<forall>x. x \<noteq> s \<and> x \<notin> (\<lambda>c. the (ts c)) ` set (cnt # rest) \<longrightarrow> m' x = m x"
      using m' m1 t(1) by auto
    moreover have "\<forall>x. is_jump m x \<longrightarrow> is_jump m' x"
      unfolding m' using mono1 tc by (auto intro: is_jump_patch)
    ultimately show ?thesis by blast
  next
    case False
    with s2 s3 have rec: "set_root_jumps cs e (Some cnt) rest m1 = Inr m'" by auto
    have cl: "\<forall>c \<in> set rest. closed_ok m1 e hs ts D F c"
    proof
      fix c assume c: "c \<in> set rest"
      show "closed_ok m1 e hs ts D F c"
        by (rule closed_ok_patch [where m = m]) (use Cons.prems(4,8) c mono1 m1 in auto)
    qed
    have tn: "t \<notin> (\<lambda>c. the (ts c)) ` set rest"
    proof
      assume "t \<in> (\<lambda>c. the (ts c)) ` set rest"
      then obtain c where c: "c \<in> set rest" "the (ts c) = the (ts cnt)" using t(1) by auto
      from inj_onD [OF Cons.prems(9) c(2)] c(1) have "c = cnt" by simp
      with c Cons.prems(3) show False by simp
    qed
    have hyg: "\<forall>c \<in> set rest. \<forall>x \<in> set (F c). x \<noteq> t \<and> x \<notin> (\<lambda>c. the (ts c)) ` set rest"
      using Cons.prems(8) t(1) by force
    have inj: "inj_on (\<lambda>c. the (ts c)) (set rest)"
      using Cons.prems(9) by (auto intro: inj_on_subset)
    from Cons.IH [OF rec False _ cl _ _ tlt hyg inj tn] Cons.prems(3) t(1,2) mono1
    obtain fp' where ih: "path m' t (concat (map D rest)) fp' e" "\<forall>x \<in> set fp'. x < e"
      "\<forall>x. x \<noteq> t \<and> x \<notin> (\<lambda>c. the (ts c)) ` set rest \<longrightarrow> m' x = m1 x"
      "\<forall>x. is_jump m1 x \<longrightarrow> is_jump m' x"
      by auto
    have sn: "s \<notin> (\<lambda>c. the (ts c)) ` set rest" using Cons.prems(10) by auto
    have ms: "m' s = m1 s" using ih(3) st sn by simp
    have p1: "path m' s [] [s] (h + sizeof_mu_JumpCommand)"
      by (rule path_jump_step [where c = "Command (cmd_type jc) (cmd_size jc)
            (JumpDst (Some (h + sizeof_mu_JumpCommand)))"])
        (use ms m1 jcj in auto)
    have Fr: "\<forall>x \<in> set (F cnt). x \<notin> (\<lambda>c. the (ts c)) ` set rest"
      using Cons.prems(8) by auto
    have p2: "path m' (h + sizeof_mu_JumpCommand) (D cnt) (F cnt) t"
      by (rule path_cong [OF p]) (use Fs Fr ih(3) m1 in auto)
    from path_append [OF path_append [OF p1 p2] ih(1)]
    have "path m' s (concat (map D (cnt # rest))) ([s] @ F cnt @ fp') e"
      by simp
    moreover have "\<forall>x \<in> set ([s] @ F cnt @ fp'). x < e"
      using Cons.prems(7) fb tlt ih(2) by auto
    moreover have "\<forall>x. x \<noteq> s \<and> x \<notin> (\<lambda>c. the (ts c)) ` set (cnt # rest) \<longrightarrow> m' x = m x"
      using ih(3) m1 t(1) by auto
    moreover have "\<forall>x. is_jump m x \<longrightarrow> is_jump m' x"
      using mono1 ih(4) by blast
    ultimately show ?thesis by blast
  qed
qed

lemma set_qsort_insert: "set (qsort_insert cmp x ys) = insert x (set ys)"
  by (induction ys) auto

lemma distinct_qsort_insert:
  "distinct (qsort_insert cmp x ys) \<longleftrightarrow> x \<notin> set ys \<and> distinct ys"
  by (induction ys) (auto simp: set_qsort_insert)

lemma length_qsort_insert: "length (qsort_insert cmp x ys) = Suc (length ys)"
  by (induction ys) auto

lemma set_qsort: "set (qsort cmp xs) = set xs"
  by (induction xs) (simp_all add: qsort_def set_qsort_insert)

lemma distinct_qsort: "distinct (qsort cmp xs) \<longleftrightarrow> distinct xs"
  using set_qsort [of cmp] by (induction xs) (auto simp: qsort_def distinct_qsort_insert)

lemma length_qsort: "length (qsort cmp xs) = length xs"
  by (induction xs) (simp_all add: qsort_def length_qsort_insert)

text \<open>Where the comparison function is the order of a key, the model of \<open>qsort\<close> is the
  sort by that key.\<close>

lemma qsort_insert_insort_key:
  assumes "\<forall>y \<in> set ys. (cmp x y \<le> 0) = (f x \<le> f y)"
  shows "qsort_insert cmp x ys = insort_key f x ys"
  using assms by (induction ys) auto

lemma qsort_sort_key:
  assumes "\<forall>x \<in> set xs. \<forall>y \<in> set xs. (cmp x y \<le> 0) = (f x \<le> f y)"
  shows "qsort cmp xs = sort_key f xs"
  using assms
proof (induction xs)
  case Nil
  then show ?case by (simp add: qsort_def)
next
  case (Cons x xs)
  then have ih: "qsort cmp xs = sort_key f xs" by simp
  have "\<forall>y \<in> set (sort_key f xs). (cmp x y \<le> 0) = (f x \<le> f y)"
    using Cons.prems by simp
  then have "qsort_insert cmp x (sort_key f xs) = insort_key f x (sort_key f xs)"
    by (rule qsort_insert_insort_key)
  with ih show ?case
    by (simp add: qsort_def sort_key_def)
qed

text \<open>\<open>compare_zindex\<close> is the order of \<open>zindex\<close> where the difference of two \<open>zindex\<close> fits an
  \<open>int\<close>.\<close>

lemma compare_zindex_order:
  "is_int32 (c_zindex (cs ! a) - c_zindex (cs ! b)) \<Longrightarrow>
     (compare_zindex cs a b \<le> 0) = (c_zindex (cs ! a) \<le> c_zindex (cs ! b))"
  by (simp add: compare_zindex_def wrap32_id)

lemma sort_roots_sorted:
  assumes "\<forall>a \<in> set rs. \<forall>b \<in> set rs. is_int32 (c_zindex (cs ! a) - c_zindex (cs ! b))"
  shows "sorted (map (\<lambda>c. c_zindex (cs ! c)) (sort_roots cs rs))"
proof -
  have "sort_roots cs rs = sort_key (\<lambda>c. c_zindex (cs ! c)) rs"
    unfolding sort_roots_def
    by (rule qsort_sort_key) (use assms compare_zindex_order in blast)
  then show ?thesis by simp
qed

lemma sort_roots_perm:
  "set (sort_roots cs rs) = set rs" "distinct (sort_roots cs rs) \<longleftrightarrow> distinct rs"
  "length (sort_roots cs rs) = length rs"
  by (simp_all add: sort_roots_def set_qsort distinct_qsort length_qsort)

lemma mu_end_Inr:
  assumes "mu_end ctx = Inr ctx'"
  shows "container_stack ctx = []"
    and "command_idx ctx' = command_idx ctx"
    and "heads ctx' = heads ctx" and "tails ctx' = tails ctx"
    and "root_list ctx' = sort_roots (containers ctx') (root_list ctx)"
    and "set_root_jumps (containers ctx') (command_idx ctx) None (root_list ctx')
           (command_list ctx) = Inr (command_list ctx')"
    and "container_stack ctx' = [] \<and> clip_stack ctx' = [] \<and> id_stack ctx' = [] \<and>
         layout_stack ctx' = []"
    and "updated_focus ctx' = 0" and "mouse_pressed ctx' = 0"
proof -
  define c1 where "c1 = (case scroll_target ctx of
                    None \<Rightarrow> ctx
                  | Some t \<Rightarrow>
                      ctx \<lparr> containers := (containers ctx)
                        [t := (containers ctx ! t)
                           \<lparr> c_scroll :=
                               mu_vec2 (vec_x (c_scroll (containers ctx ! t)) + vec_x (scroll_delta ctx))
                                       (vec_y (c_scroll (containers ctx ! t)) + vec_y (scroll_delta ctx)) \<rparr>] \<rparr>)"
  define c2 where "c2 = (if updated_focus c1 = 0 then c1 \<lparr> focus := 0 \<rparr> else c1) \<lparr> updated_focus := 0 \<rparr>"
  define c3 where "c3 = (case next_hover_root c2 of
                    None \<Rightarrow> c2
                  | Some r \<Rightarrow>
                      if mouse_pressed c2 \<noteq> 0 \<and>
                         c_zindex (containers c2 ! r) < last_zindex c2 \<and>
                         c_zindex (containers c2 ! r) \<ge> 0
                      then mu_bring_to_front c2 r else c2)"
  define c4 where "c4 = c3 \<lparr> key_pressed := 0, input_text := [], mouse_pressed := 0,
                      scroll_delta := mu_vec2 0 0, last_mouse_pos := mouse_pos c3 \<rparr>"
  define c5 where "c5 = c4 \<lparr> root_list := sort_roots (containers c4) (root_list c4) \<rparr>"
  have p1: "same_pipe ctx c1 \<and> container_stack c1 = container_stack ctx"
    by (auto simp: c1_def same_pipe_def heads_def tails_def fun_eq_iff nth_update_field
        split: option.splits)
  have p2: "same_pipe c1 c2"
    using heads_tails_cong [of c2 c1] by (simp add: c2_def same_pipe_def)
  have p3: "same_pipe c2 c3"
    using mu_bring_to_front_pipe same_pipe_refl by (auto simp: c3_def split: option.splits)
  have p4: "same_pipe c3 c4"
    using heads_tails_cong [of c4 c3] by (simp add: c4_def same_pipe_def)
  from same_pipe_trans [OF same_pipe_trans [OF same_pipe_trans [OF conjunct1 [OF p1] p2] p3] p4]
  have sp: "same_pipe ctx c4" .
  from assms have g: "container_stack ctx = []" "clip_stack ctx = []" "id_stack ctx = []"
    "layout_stack ctx = []"
    by (auto simp: mu_end_def split: if_splits)
  note stk = g(1)
  have "mu_end ctx = and_then
            (set_root_jumps (containers c5) (command_idx c5) None (root_list c5) (command_list c5))
            (\<lambda>m. Inr (c5 \<lparr> command_list := m \<rparr>))"
    unfolding mu_end_def c5_def c4_def c3_def c2_def c1_def Let_def using g by simp
  with assms have "and_then
            (set_root_jumps (containers c5) (command_idx c5) None (root_list c5) (command_list c5))
            (\<lambda>m. Inr (c5 \<lparr> command_list := m \<rparr>)) = Inr ctx'"
    by simp
  then obtain m where m: "set_root_jumps (containers c5) (command_idx c5) None (root_list c5)
      (command_list c5) = Inr m" and c': "ctx' = c5 \<lparr> command_list := m \<rparr>"
    by (auto simp: and_then_Inr)
  have h5: "heads ctx' = heads c4" "tails ctx' = tails c4"
    using heads_tails_cong [of ctx' c4] c' by (simp_all add: c5_def)
  have k1: "container_stack c1 = container_stack ctx \<and> clip_stack c1 = clip_stack ctx \<and>
      id_stack c1 = id_stack ctx \<and> layout_stack c1 = layout_stack ctx"
    by (simp add: c1_def split: option.splits)
  have k2: "container_stack c2 = container_stack c1 \<and> clip_stack c2 = clip_stack c1 \<and>
      id_stack c2 = id_stack c1 \<and> layout_stack c2 = layout_stack c1 \<and> updated_focus c2 = 0"
    by (simp add: c2_def)
  have k3: "container_stack c3 = container_stack c2 \<and> clip_stack c3 = clip_stack c2 \<and>
      id_stack c3 = id_stack c2 \<and> layout_stack c3 = layout_stack c2 \<and>
      updated_focus c3 = updated_focus c2"
    by (simp add: c3_def mu_bring_to_front_def Let_def split: option.splits)
  show "container_stack ctx = []" by (rule stk)
  show "container_stack ctx' = [] \<and> clip_stack ctx' = [] \<and> id_stack ctx' = [] \<and>
         layout_stack ctx' = []"
    using g k1 k2 k3 by (simp add: c' c5_def c4_def)
  show "updated_focus ctx' = 0" using k2 k3 by (simp add: c' c5_def c4_def)
  show "mouse_pressed ctx' = 0" by (simp add: c' c5_def c4_def)
  show "command_idx ctx' = command_idx ctx" using sp c' by (simp add: c5_def same_pipe_def)
  show "heads ctx' = heads ctx" "tails ctx' = tails ctx" using sp h5 by (simp_all add: same_pipe_def)
  show "root_list ctx' = sort_roots (containers ctx') (root_list ctx)"
    using sp c' by (simp add: c5_def same_pipe_def)
  show "set_root_jumps (containers ctx') (command_idx ctx) None (root_list ctx')
           (command_list ctx) = Inr (command_list ctx')"
    using m sp c' by (simp add: c5_def same_pipe_def)
qed

lemma pushes_rooted:
  "(r, a, cmd) \<in> set (pushes ops st a0) \<Longrightarrow> well_nested ops st \<Longrightarrow> r \<noteq> None"
proof (induction ops arbitrary: st a0)
  case Nil
  then show ?case by simp
next
  case (Cons op ops)
  show ?case
  proof (cases op)
    case (Push ty sz body)
    with Cons.prems Cons.IH [of st "a0 + sz"] show ?thesis by auto
  next
    case (BeginRoot c)
    with Cons.prems Cons.IH [of "(c, True) # st" "a0 + sizeof_mu_JumpCommand"] show ?thesis by auto
  next
    case EndRoot
    with Cons.prems Cons.IH [of "tl st" "a0 + sizeof_mu_JumpCommand"] show ?thesis
      by (auto split: list.splits bool.splits prod.splits)
  next
    case (BeginPanel c)
    with Cons.prems Cons.IH [of "(c, False) # st" a0] show ?thesis by auto
  next
    case EndPanel
    with Cons.prems Cons.IH [of "tl st" a0] show ?thesis
      by (auto split: list.splits bool.splits prod.splits)
  qed (use Cons.prems Cons.IH [of st a0] in auto)
qed

lemma pushes_offsets:
  "well_nested ops st \<Longrightarrow>
     sorted_wrt (<) (map (\<lambda>(r, a, cmd). a) (pushes ops st a0)) \<and>
     (\<forall>(r, a, cmd) \<in> set (pushes ops st a0). a0 \<le> a)"
proof (induction ops arbitrary: st a0)
  case Nil
  then show ?case by simp
next
  case (Cons op ops)
  show ?case
  proof (cases op)
    case (Push ty sz body)
    with Cons.prems have sz: "0 < sz" and wn: "well_nested ops st" by auto
    from Cons.IH [OF wn, of "a0 + sz"] sz show ?thesis
      by (fastforce simp: Push)
  next
    case (BeginRoot c)
    with Cons.prems have wn: "well_nested ops ((c, True) # st)" by simp
    from Cons.IH [OF wn, of "a0 + sizeof_mu_JumpCommand"] J_pos show ?thesis
      by (fastforce simp: BeginRoot)
  next
    case EndRoot
    with Cons.prems have wn: "well_nested ops (tl st)"
      by (auto split: list.splits bool.splits prod.splits)
    from Cons.IH [OF wn, of "a0 + sizeof_mu_JumpCommand"] J_pos show ?thesis
      by (fastforce simp: EndRoot)
  next
    case (BeginPanel c)
    with Cons.prems Cons.IH [of "(c, False) # st" a0] show ?thesis by simp
  next
    case EndPanel
    with Cons.prems have wn: "well_nested ops (tl st)"
      by (auto split: list.splits bool.splits prod.splits)
    from Cons.IH [OF wn, of a0] show ?thesis by (simp add: EndPanel)
  qed (use Cons.prems Cons.IH [of st a0] in auto)
qed

lemma distinct_concat_by_key:
  assumes "distinct (map f xs)" and "distinct cs"
  shows "distinct (concat (map (\<lambda>c. map f (filter (\<lambda>x. g x = Some c) xs)) cs))"
  using assms(2)
proof (induction cs)
  case Nil
  then show ?case by simp
next
  case (Cons c cs)
  from assms(1) have inj: "inj_on f (set xs)" and dx: "distinct xs" by (simp_all add: distinct_map)
  have d1: "distinct (map f (filter (\<lambda>x. g x = Some c) xs))"
    using assms(1) by (rule distinct_map_filter)
  have disj: "set (map f (filter (\<lambda>x. g x = Some c) xs)) \<inter>
      set (concat (map (\<lambda>c. map f (filter (\<lambda>x. g x = Some c) xs)) cs)) = {}"
  proof (rule ccontr)
    assume "\<not> ?thesis"
    then obtain x y c' where x: "x \<in> set xs" "g x = Some c" and y: "y \<in> set xs" "g y = Some c'"
      and c': "c' \<in> set cs" and e: "f x = f y"
      by auto
    from inj_onD [OF inj e x(1) y(1)] x(2) y(2) have "c = c'" by simp
    with c' Cons.prems show False by simp
  qed
  from d1 disj Cons show ?case by simp
qed

lemma pushes_not_jump:
  "(r, a, cmd) \<in> set (pushes ops st a0) \<Longrightarrow> well_nested ops st \<Longrightarrow>
     cmd_type cmd \<noteq> MU_COMMAND_JUMP"
proof (induction ops arbitrary: st a0)
  case Nil
  then show ?case by simp
next
  case (Cons op ops)
  show ?case
  proof (cases op)
    case (Push ty sz body)
    with Cons.prems Cons.IH [of st "a0 + sz"] show ?thesis by auto
  next
    case (BeginRoot c)
    with Cons.prems Cons.IH [of "(c, True) # st" "a0 + sizeof_mu_JumpCommand"] show ?thesis by auto
  next
    case EndRoot
    with Cons.prems Cons.IH [of "tl st" "a0 + sizeof_mu_JumpCommand"] show ?thesis
      by (auto split: list.splits bool.splits prod.splits)
  next
    case (BeginPanel c)
    with Cons.prems Cons.IH [of "(c, False) # st" a0] show ?thesis by auto
  next
    case EndPanel
    with Cons.prems Cons.IH [of "tl st" a0] show ?thesis
      by (auto split: list.splits bool.splits prod.splits)
  qed (use Cons.prems Cons.IH [of st a0] in auto)
qed

lemma frame_pipeline:
  assumes b: "mu_begin ctx0 = Inr ctx1" and f: "run_frame ops ctx1 = Inr ctx2"
    and e: "mu_end ctx2 = Inr ctx3"
    and wn: "well_nested ops []" and d: "distinct (roots ops)"
    and len: "\<forall>c \<in> set (roots ops). c < length (containers ctx0)"
  shows "root_list ctx3 = sort_roots (containers ctx3) (roots ops)"
    and "commands_from ctx3 None = Some (Inr (concat (map (direct ops) (root_list ctx3))))"
    and "\<forall>c. c \<notin> set (roots ops) \<longrightarrow> direct ops c = []"
    and "\<forall>(r, a, cmd) \<in> set (pushes ops [] 0). command_list ctx3 a = Some cmd"
proof -
  from b have c1: "command_idx ctx1 = 0" "root_list ctx1 = []" "containers ctx1 = containers ctx0"
    by (auto simp: mu_begin_def split: if_splits)
  have fi0: "frame_inv ctx1 (container_stack ctx1) [] [] (\<lambda>_. []) (\<lambda>_. [])"
    using c1 by (simp add: frame_inv_def pipe_inv_def open_roots_def)
  have d0: "distinct ([] @ roots ops)" using d by simp
  have l0: "\<forall>c \<in> set ([] @ roots ops). c < length (containers ctx1)" using len c1 by simp
  from run_frame_inv [OF f wn fi0 d0 l0]
  obtain st' D' F' where fi2: "frame_inv ctx2 (container_stack ctx1) st' (roots ops) D' F'"
    and DD: "\<forall>c. D' c = direct ops c"
    and content: "\<forall>(r, a, cmd) \<in> set (pushes ops [] 0). command_list ctx2 a = Some cmd"
    by (auto simp: c1 direct_def direct_from_def)
  note me = mu_end_Inr [OF e]
  from fi2 me(1) have st': "st' = []" by (simp add: frame_inv_def)
  define R where "R = roots ops"
  define m2 where "m2 = command_list ctx2"
  define e2 where "e2 = command_idx ctx2"
  define hs where "hs = heads ctx2"
  define ts where "ts = tails ctx2"
  define rs where "rs = root_list ctx3"
  from fi2 st' have rl2: "root_list ctx2 = R" and inv: "pipe_inv m2 e2 hs ts R [] D' F'"
    by (simp_all add: frame_inv_def open_roots_def R_def m2_def e2_def hs_def ts_def)
  have rs: "rs = sort_roots (containers ctx3) R"
    using me(5) rl2 by (simp add: rs_def)
  then show "root_list ctx3 = sort_roots (containers ctx3) (roots ops)"
    by (simp add: rs_def R_def)
  from inv DD show "\<forall>c. c \<notin> set (roots ops) \<longrightarrow> direct ops c = []"
    by (simp add: pipe_inv_def R_def)
  have srs: "set rs = set R" "distinct rs"
    using rs inv by (simp_all add: pipe_inv_def sort_roots_perm)
  have hs3: "\<forall>c. hs c = c_head (containers ctx3 ! c)" and ts3: "\<forall>c. ts c = c_tail (containers ctx3 ! c)"
    using me(3,4) by (simp_all add: hs_def ts_def heads_def tails_def fun_eq_iff)
  have sj: "set_root_jumps (containers ctx3) e2 None rs m2 = Inr (command_list ctx3)"
    using me(6) by (simp add: e2_def rs_def m2_def)
  have e3: "command_idx ctx3 = e2" using me(2) by (simp add: e2_def)
  have nc: "mu_next_command ctx3 None =
      next_command_loop (command_list ctx3) (command_idx ctx3) (Some 0)"
    by (simp add: mu_next_command_def)
  have closed: "\<forall>c \<in> set R. closed_ok m2 e2 hs ts D' F' c"
    using inv by (simp add: pipe_inv_def)
  have walk: "commands_from ctx3 None = Some (Inr (concat (map D' rs))) \<and>
      (\<forall>c \<in> set R. \<forall>x \<in> set (F' c). command_list ctx3 x = m2 x)"
  proof (cases "R = []")
    case True
    with inv rs have z: "e2 = 0" "rs = []"
      by (simp_all add: pipe_inv_def sort_roots_def qsort_def)
    with sj have "command_list ctx3 = m2" by simp
    moreover have "commands_from ctx3 None = Some (Inr [])"
      by (rule path_scan [OF path_Nil [of "command_list ctx3" 0] _ _ refl nc])
        (simp_all add: e3 z)
    ultimately show ?thesis using z True by simp
  next
    case False
    then have hdR: "hd R \<in> set R" by simp
    from inv False have h0: "hs (hd R) = Some 0" by (simp add: pipe_inv_def)
    from pipe_head_below [OF inv hdR] h0 have j0: "is_jump m2 0" and e0: "0 < e2" by auto
    have tpos: "\<forall>c \<in> set R. 0 < the (ts c)"
    proof
      fix c assume "c \<in> set R"
      with closed have "closed_ok m2 e2 hs ts D' F' c" by simp
      then show "0 < the (ts c)" using J_pos by (auto simp: closed_ok_def root_ok_def)
    qed
    have fpos: "\<forall>c \<in> set R. \<forall>x \<in> set (F' c). 0 < x"
    proof
      fix c assume "c \<in> set R"
      with closed have "closed_ok m2 e2 hs ts D' F' c" by simp
      then show "\<forall>x \<in> set (F' c). 0 < x" using J_pos by (fastforce simp: closed_ok_def root_ok_def)
    qed
    have hyg: "\<forall>c \<in> set rs. \<forall>x \<in> set (F' c). x \<noteq> 0 \<and> x \<notin> (\<lambda>c. the (ts c)) ` set rs"
      using inv fpos srs by (fastforce simp: pipe_inv_def)
    have inj: "inj_on (\<lambda>c. the (ts c)) (set rs)" using inv srs by (simp add: pipe_inv_def)
    have z0: "0 \<notin> (\<lambda>c. the (ts c)) ` set rs" using tpos srs by force
    have ne: "rs \<noteq> []" using srs False by auto
    have cl: "\<forall>c \<in> set rs. closed_ok m2 e2 hs ts D' F' c" using closed srs by simp
    from set_root_jumps_path [OF sj hs3 ts3 ne srs(2) cl _ j0 e0 hyg inj z0]
    obtain fp where p: "path (command_list ctx3) 0 (concat (map D' rs)) fp e2"
      and fpb: "\<forall>x \<in> set fp. x < e2"
      and fr: "\<forall>x. x \<noteq> 0 \<and> x \<notin> (\<lambda>c. the (ts c)) ` set rs \<longrightarrow> command_list ctx3 x = m2 x"
      by auto
    have "commands_from ctx3 None = Some (Inr (concat (map D' rs)))"
      by (rule path_scan [OF p _ _ refl nc]) (use fpb e3 in auto)
    moreover have "\<forall>c \<in> set R. \<forall>x \<in> set (F' c). command_list ctx3 x = m2 x"
      using fr hyg srs by auto
    ultimately show ?thesis by simp
  qed
  have "D' = direct ops" using DD by (simp add: fun_eq_iff)
  with walk show "commands_from ctx3 None = Some (Inr (concat (map (direct ops) (root_list ctx3))))"
    by (simp add: rs_def)
  show "\<forall>(r, a, cmd) \<in> set (pushes ops [] 0). command_list ctx3 a = Some cmd"
  proof (clarify)
    fix r a cmd assume in_p: "(r, a, cmd) \<in> set (pushes ops [] 0)"
    from pushes_rooted [OF in_p wn] obtain c where r: "r = Some c" by auto
    with in_p have "a \<in> set (direct ops c)" by (force simp: direct_def)
    with DD have aD: "a \<in> set (D' c)" by simp
    with inv have cR: "c \<in> set R" by (auto simp: pipe_inv_def)
    from pipe_D_below(2) [OF inv cR aD] walk cR have "command_list ctx3 a = m2 a" by blast
    with content in_p show "command_list ctx3 a = Some cmd" by (auto simp: m2_def)
  qed
qed

section \<open>The command list after a frame\<close>

text \<open>The drawing functions reach the buffer as \<open>Push\<close> operations: \<open>mu_set_clip\<close> always,
  \<open>mu_draw_rect\<close> when the clipped rectangle is not empty.\<close>

lemma mu_set_clip_push:
  "mu_set_clip ctx r = run_op (Push MU_COMMAND_CLIP sizeof_mu_ClipCommand (ClipBody r)) ctx"
  by (simp add: mu_set_clip_def)

lemma mu_draw_rect_push:
  assumes "mu_get_clip_rect ctx = Inr cr"
    and "rect_w (intersect_rects r cr) > 0" and "rect_h (intersect_rects r cr) > 0"
  shows "mu_draw_rect ctx r col =
    run_op (Push MU_COMMAND_RECT sizeof_mu_RectCommand (RectBody (intersect_rects r cr) col)) ctx"
  using assms by (simp add: mu_draw_rect_def Let_def)

lemmas frame_defs = mu_begin_def mu_end_def mu_push_id_def mu_pop_id_def mu_get_id_def
  begin_root_container_def end_root_container_def push_jump_def mu_push_command_def
  write_command_def set_body_def set_jump_dst_def mu_pop_clip_rect_def pop_container_def
  mu_get_current_container_def get_layout_def set_layout_def mu_layout_row_def push_layout_def
  zero_layout_def mu_bring_to_front_def sort_roots_def qsort_def compare_zindex_def
  wrap32_literal Let_def
  rect_overlaps_vec2_def zero_container_def mu_init_def window_ctx_def far_apart_ctx_def
  MU_CONTAINERSTACK_SIZE_def MU_ROOTLIST_SIZE_def MU_CLIPSTACK_SIZE_def MU_IDSTACK_SIZE_def
  MU_LAYOUTSTACK_SIZE_def MU_MAX_WIDTHS_def MU_COMMANDLIST_SIZE_def
  MU_COMMAND_JUMP_def MU_COMMAND_RECT_def MU_COMMAND_CLIP_def
  sizeof_mu_JumpCommand_def sizeof_mu_RectCommand_def sizeof_mu_ClipCommand_def
  HASH_INITIAL_def unclipped_rect_def

lemma stray_clip_run:
  "\<exists>c. process_frame stray_clip window_ctx = Inr c \<and> command_idx c = 84 \<and>
     command_list c 0 = Some (Command MU_COMMAND_JUMP 16 (JumpDst (Some 16))) \<and>
     command_list c 16 = Some (Command MU_COMMAND_RECT 28
        (RectBody (mu_rect 0 0 100 100) (mu_color 0 0 0 255))) \<and>
     command_list c 44 = Some (Command MU_COMMAND_JUMP 16 (JumpDst (Some 84))) \<and>
     command_list c 60 = Some (Command MU_COMMAND_CLIP 24 (ClipBody unclipped_rect))"
  by (simp add: process_frame_def stray_clip_def frame_defs)

lemma process_frame_Inr:
  "process_frame ops ctx = Inr ctx' \<Longrightarrow>
     \<exists>c1 c2. mu_begin ctx = Inr c1 \<and> run_frame ops c1 = Inr c2 \<and> mu_end c2 = Inr ctx'"
  by (auto simp: process_frame_def and_then_Inr)

lemma direct_alt:
  "direct ops c = map (fst \<circ> snd) (filter (\<lambda>x. fst x = Some c) (pushes ops [] 0))"
  by (simp add: direct_def case_prod_unfold comp_def)

lemma pushes_distinct:
  assumes "well_nested ops st"
  shows "distinct (map (fst \<circ> snd) (pushes ops st a0))"
proof -
  from pushes_offsets [OF assms, of a0]
  have "sorted_wrt (<) (map (fst \<circ> snd) (pushes ops st a0))"
    by (simp add: case_prod_unfold comp_def)
  then show ?thesis by (simp add: strict_sorted_iff)
qed

text \<open>
  C1, as amended.  Take a frame that runs to the end of \<open>mu_end\<close>, in which every record
  is pushed while a root container is open, is no jump and has a positive size, every
  root container is begun once, and the \<open>zindex\<close> of any two root containers differ by
  less than \<open>2^31\<close> at the end of the frame (\<open>compare_zindex\<close> does not overflow).  Then the
  root list is the root containers of the frame in ascending \<open>zindex\<close>; the client's loop
  over \<open>mu_next_command\<close> from a \<open>NULL\<close> cursor ends and returns, root container after root
  container in that order, the records pushed inside each in the order of their emission;
  every record pushed in the frame is returned exactly once; and each is in the buffer as
  it was pushed, none of them a jump.
\<close>

theorem process_frame_commands:
  assumes run: "process_frame ops ctx = Inr ctx'"
    and wn: "well_nested ops []" and d: "distinct (roots ops)"
    and len: "\<forall>c \<in> set (roots ops). c < length (containers ctx)"
    and fit: "\<forall>a \<in> set (roots ops). \<forall>b \<in> set (roots ops).
                is_int32 (c_zindex (containers ctx' ! a) - c_zindex (containers ctx' ! b))"
  shows "set (root_list ctx') = set (roots ops) \<and> distinct (root_list ctx') \<and>
         sorted (map (\<lambda>c. c_zindex (containers ctx' ! c)) (root_list ctx')) \<and>
         commands_from ctx' None = Some (Inr (concat (map (direct ops) (root_list ctx')))) \<and>
         distinct (concat (map (direct ops) (root_list ctx'))) \<and>
         set (concat (map (direct ops) (root_list ctx'))) = (fst \<circ> snd) ` set (pushes ops [] 0) \<and>
         (\<forall>(r, a, cmd) \<in> set (pushes ops [] 0).
            command_list ctx' a = Some cmd \<and> cmd_type cmd \<noteq> MU_COMMAND_JUMP)"
proof -
  from process_frame_Inr [OF run] obtain c1 c2 where
    s: "mu_begin ctx = Inr c1" "run_frame ops c1 = Inr c2" "mu_end c2 = Inr ctx'"
    by blast
  note fp = frame_pipeline [OF s wn d len]
  have rs: "set (root_list ctx') = set (roots ops)" "distinct (root_list ctx')"
    using fp(1) d by (simp_all add: sort_roots_perm)
  have so: "sorted (map (\<lambda>c. c_zindex (containers ctx' ! c)) (root_list ctx'))"
    unfolding fp(1) using fit by (rule sort_roots_sorted)
  have di: "distinct (concat (map (direct ops) (root_list ctx')))"
    using distinct_concat_by_key [OF pushes_distinct [OF wn] rs(2), of fst 0]
    by (simp add: direct_alt [abs_def])
  have se: "set (concat (map (direct ops) (root_list ctx'))) = (fst \<circ> snd) ` set (pushes ops [] 0)"
  proof (intro equalityI subsetI)
    fix a assume "a \<in> set (concat (map (direct ops) (root_list ctx')))"
    then show "a \<in> (fst \<circ> snd) ` set (pushes ops [] 0)" by (auto simp: direct_alt)
  next
    fix a assume "a \<in> (fst \<circ> snd) ` set (pushes ops [] 0)"
    then obtain r cmd where p: "(r, a, cmd) \<in> set (pushes ops [] 0)" by force
    from pushes_rooted [OF p wn] obtain c where r: "r = Some c" by auto
    with p have a: "a \<in> set (direct ops c)" by (force simp: direct_alt)
    with fp(3) have "c \<in> set (roots ops)" by auto
    with a rs show "a \<in> set (concat (map (direct ops) (root_list ctx')))" by auto
  qed
  have co: "\<forall>(r, a, cmd) \<in> set (pushes ops [] 0).
      command_list ctx' a = Some cmd \<and> cmd_type cmd \<noteq> MU_COMMAND_JUMP"
    using fp(4) pushes_not_jump [OF _ wn] by fastforce
  from rs so fp(2) di se co show ?thesis by blast
qed

lemma two_windows_run:
  "\<exists>c. process_frame two_windows window_ctx = Inr c \<and>
     c_zindex (containers c ! 0) = 1 \<and> c_zindex (containers c ! 1) = 0"
  by (simp add: process_frame_def two_windows_def frame_defs)

text \<open>The frame \<open>two_windows\<close>: container 1, declared second, has the lower \<open>zindex\<close>, so its
  records at 76 and 104 are returned before the record at 16 of container 0.\<close>

theorem process_frame_commands_witness:
  "map_sum id (\<lambda>c. (root_list c, commands_from c None)) (process_frame two_windows window_ctx)
     = Inr ([1, 0], Some (Inr [76, 104, 16]))"
proof -
  from two_windows_run obtain c where run: "process_frame two_windows window_ctx = Inr c"
    and z: "c_zindex (containers c ! 0) = 1" "c_zindex (containers c ! 1) = 0"
    by blast
  have wn: "well_nested two_windows []"
    by (simp add: two_windows_def MU_COMMAND_RECT_def MU_COMMAND_CLIP_def MU_COMMAND_JUMP_def
        sizeof_mu_RectCommand_def sizeof_mu_ClipCommand_def)
  have ro: "roots two_windows = [0, 1]" by (simp add: two_windows_def)
  have d: "distinct (roots two_windows)" by (simp add: ro)
  have len: "\<forall>c \<in> set (roots two_windows). c < length (containers window_ctx)"
    by (simp add: ro window_ctx_def mu_init_def)
  have fit: "\<forall>a \<in> set (roots two_windows). \<forall>b \<in> set (roots two_windows).
      is_int32 (c_zindex (containers c ! a) - c_zindex (containers c ! b))"
    using z by (simp add: ro is_int32_def)
  from process_frame_commands [OF run wn d len fit]
  have s: "set (root_list c) = {0, 1}" "distinct (root_list c)"
    "sorted (map (\<lambda>x. c_zindex (containers c ! x)) (root_list c))"
    and cf: "commands_from c None = Some (Inr (concat (map (direct two_windows) (root_list c))))"
    by (simp_all add: ro)
  have rl: "root_list c = [1, 0]"
  proof -
    from s(1,2) have "length (root_list c) = 2" using distinct_card [of "root_list c"] by simp
    then obtain x y where xy: "root_list c = [x, y]"
      by (auto simp: length_Suc_conv numeral_2_eq_2)
    with s z show ?thesis by (auto simp: doubleton_eq_iff)
  qed
  have "concat (map (direct two_windows) [1, 0]) = [76, 104, 16]"
    by (simp add: direct_def two_windows_def sizeof_mu_JumpCommand_def sizeof_mu_RectCommand_def
        sizeof_mu_ClipCommand_def)
  with run cf rl show ?thesis by simp
qed

lemma plain_windows_run:
  "\<exists>c. process_frame plain_windows far_apart_ctx = Inr c \<and>
     c_zindex (containers c ! 0) = 2000000000 \<and> c_zindex (containers c ! 1) = - 2000000000 \<and>
     root_list c = [0, 1]"
  by (simp add: process_frame_def plain_windows_def frame_defs)

lemma stray_clip_walk:
  "map_sum id (\<lambda>c. (map_option cmd_type (command_list c 60), commands_from c None))
     (process_frame stray_clip window_ctx) = Inr (Some MU_COMMAND_CLIP, Some (Inr [16]))"
proof -
  from stray_clip_run obtain c where run: "process_frame stray_clip window_ctx = Inr c"
    and e: "command_idx c = 84"
    and m: "command_list c 0 = Some (Command MU_COMMAND_JUMP 16 (JumpDst (Some 16)))"
      "command_list c 16 = Some (Command MU_COMMAND_RECT 28
        (RectBody (mu_rect 0 0 100 100) (mu_color 0 0 0 255)))"
      "command_list c 44 = Some (Command MU_COMMAND_JUMP 16 (JumpDst (Some 84)))"
      "command_list c 60 = Some (Command MU_COMMAND_CLIP 24 (ClipBody unclipped_rect))"
    by blast
  have p3: "path (command_list c) 44 [] [44] 84"
    using m(3) by (rule path_jump_step) simp_all
  have p2: "path (command_list c) 16 [16] [16, 44] 84"
    using m(2) by (rule path_Cmd) (use p3 in \<open>simp_all add: MU_COMMAND_RECT_def MU_COMMAND_JUMP_def\<close>)
  have p1: "path (command_list c) 0 [16] [0, 16, 44] 84"
    using m(1) by (rule path_Jump) (use p2 in simp_all)
  have "commands_from c None = Some (Inr [16])"
    by (rule path_scan [OF p1 _ _ refl]) (simp_all add: e mu_next_command_def)
  with run m(4) show ?thesis by simp
qed

lemma plain_windows_walk:
  "map_sum id (\<lambda>c. (map (\<lambda>k. c_zindex (containers c ! k)) (root_list c), commands_from c None))
     (process_frame plain_windows far_apart_ctx)
     = Inr ([2000000000, - 2000000000], Some (Inr [16, 76]))"
proof -
  from plain_windows_run obtain c where run: "process_frame plain_windows far_apart_ctx = Inr c"
    and z: "c_zindex (containers c ! 0) = 2000000000"
      "c_zindex (containers c ! 1) = - 2000000000"
    and rl: "root_list c = [0, 1]"
    by blast
  from process_frame_Inr [OF run] obtain c1 c2 where
    s: "mu_begin far_apart_ctx = Inr c1" "run_frame plain_windows c1 = Inr c2" "mu_end c2 = Inr c"
    by blast
  have wn: "well_nested plain_windows []"
    by (simp add: plain_windows_def MU_COMMAND_RECT_def MU_COMMAND_JUMP_def
        sizeof_mu_RectCommand_def)
  have ro: "roots plain_windows = [0, 1]" by (simp add: plain_windows_def)
  have d: "distinct (roots plain_windows)" by (simp add: ro)
  have len: "\<forall>c \<in> set (roots plain_windows). c < length (containers far_apart_ctx)"
    by (simp add: ro far_apart_ctx_def window_ctx_def mu_init_def)
  from frame_pipeline(2) [OF s wn d len]
  have cf: "commands_from c None = Some (Inr (concat (map (direct plain_windows) (root_list c))))" .
  have "concat (map (direct plain_windows) [0, 1]) = [16, 76]"
    by (simp add: direct_def plain_windows_def sizeof_mu_JumpCommand_def sizeof_mu_RectCommand_def)
  with run cf rl z show ?thesis by simp
qed

text \<open>
  C1 as stated fails, in two ways.  It speaks of every frame: in the frame \<open>stray_clip\<close>
  the clip record pushed by \<open>mu_set_clip\<close> after the window has been closed lies at offset
  60, between the tail jump of the window and the end of the buffer; \<open>mu_end\<close> sends that
  jump to the end of the buffer, and the loop returns the record at 16 only.  And it
  speaks of every \<open>zindex\<close>: for the two windows of \<open>far_apart_ctx\<close> the difference
  \<open>2000000000 - (-2000000000)\<close> that \<open>compare_zindex\<close> returns is negative in 32 bits, the
  root list stays as declared, and the loop returns the record at 16 of the container with
  the higher \<open>zindex\<close> before the record at 76 of the other.
\<close>

theorem process_frame_stray_counterexample:
  "map_sum id (\<lambda>c. (map_option cmd_type (command_list c 60), commands_from c None))
     (process_frame stray_clip window_ctx) = Inr (Some MU_COMMAND_CLIP, Some (Inr [16])) \<and>
   map_sum id (\<lambda>c. (map (\<lambda>k. c_zindex (containers c ! k)) (root_list c), commands_from c None))
     (process_frame plain_windows far_apart_ctx)
     = Inr ([2000000000, - 2000000000], Some (Inr [16, 76]))"
  using stray_clip_walk plain_windows_walk by (rule conjI)

section \<open>The mouse buttons across a frame\<close>

lemma mu_push_command_pressed:
  "mu_push_command ctx ty sz = Inr (a, c) \<Longrightarrow> mouse_pressed c = mouse_pressed ctx"
  by (auto simp: mu_push_command_def split: if_splits)

lemma push_jump_pressed:
  "push_jump ctx d = Inr (a, c) \<Longrightarrow> mouse_pressed c = mouse_pressed ctx"
  by (auto simp: push_jump_def and_then_Inr dest: mu_push_command_pressed)

lemma mu_pop_id_pressed: "mu_pop_id ctx = Inr c \<Longrightarrow> mouse_pressed c = mouse_pressed ctx"
  by (auto simp: mu_pop_id_def split: if_splits)

lemma mu_push_id_pressed: "mu_push_id ctx d = Inr c \<Longrightarrow> mouse_pressed c = mouse_pressed ctx"
  by (auto simp: mu_push_id_def mu_get_id_def Let_def split: if_splits)

lemma mu_pop_clip_rect_pressed:
  "mu_pop_clip_rect ctx = Inr c \<Longrightarrow> mouse_pressed c = mouse_pressed ctx"
  by (auto simp: mu_pop_clip_rect_def split: if_splits)

lemma mu_push_clip_rect_pressed:
  "mu_push_clip_rect ctx r = Inr c \<Longrightarrow> mouse_pressed c = mouse_pressed ctx"
  by (auto simp: mu_push_clip_rect_def and_then_Inr split: if_splits)

lemma push_layout_pressed:
  "push_layout ctx b s = Inr c \<Longrightarrow> mouse_pressed c = mouse_pressed ctx"
  by (auto simp: push_layout_def mu_layout_row_def get_layout_def set_layout_def and_then_Inr
      Let_def split: if_splits)

lemma pop_container_pressed:
  "pop_container ctx = Inr c \<Longrightarrow> mouse_pressed c = mouse_pressed ctx"
  by (auto simp: pop_container_def and_then_Inr Let_def split: if_splits
      dest!: mu_pop_id_pressed)

lemma begin_root_container_pressed:
  "begin_root_container ctx cnt = Inr c \<Longrightarrow> mouse_pressed c = mouse_pressed ctx"
  by (auto simp: begin_root_container_def and_then_Inr Let_def split: if_splits
      dest!: push_jump_pressed)

lemma end_root_container_pressed:
  assumes "end_root_container ctx = Inr c"
  shows "mouse_pressed c = mouse_pressed ctx"
proof -
  from assms obtain cnt a c1 m c2 where
    "push_jump ctx None = Inr (a, c1)"
    and "mu_pop_clip_rect (c1 \<lparr> containers :=
            (containers c1)[cnt := (containers c1 ! cnt) \<lparr> c_tail := Some a \<rparr>],
            command_list := m \<rparr>) = Inr c2"
    and "pop_container c2 = Inr c"
    by (auto simp: end_root_container_def and_then_Inr Let_def)
  then show ?thesis
    by (auto dest!: push_jump_pressed mu_pop_clip_rect_pressed pop_container_pressed)
qed

lemma run_op_pressed: "run_op op ctx = Inr c \<Longrightarrow> mouse_pressed c = mouse_pressed ctx"
proof (cases op)
  case (Push ty sz body)
  then show "run_op op ctx = Inr c \<Longrightarrow> ?thesis"
    by (auto simp: and_then_Inr dest!: mu_push_command_pressed)
next
  case (BringToFront k)
  then show "run_op op ctx = Inr c \<Longrightarrow> ?thesis"
    by (auto simp: mu_bring_to_front_def Let_def)
qed (auto dest: begin_root_container_pressed end_root_container_pressed pop_container_pressed
    mu_push_id_pressed mu_pop_id_pressed push_layout_pressed mu_push_clip_rect_pressed
    mu_pop_clip_rect_pressed split: if_splits)

lemma run_frame_pressed:
  "run_frame ops ctx = Inr c \<Longrightarrow> mouse_pressed c = mouse_pressed ctx"
proof (induction ops arbitrary: ctx)
  case Nil
  then show ?case by simp
next
  case (Cons op ops)
  then obtain c1 where "run_op op ctx = Inr c1" "run_frame ops c1 = Inr c"
    by (auto simp: and_then_Inr)
  with Cons.IH [of c1] run_op_pressed [of op ctx c1] show ?case by simp
qed

lemma or_and_self: "(a OR b) AND b = (b :: int)"
  by (auto simp add: bit_eq_iff bit_simps)

section \<open>The context after \<open>mu_end\<close>\<close>

text \<open>
  C2, as amended.  After a successful \<open>mu_end\<close> the container, clip, id and layout stacks
  are empty and \<open>updated_focus\<close> is 0; the write cursor of the command list and the length
  of the root list are what they were before the call (\<open>mu_begin\<close> resets them).
\<close>

theorem mu_end_stacks:
  assumes "mu_end ctx = Inr ctx'"
  shows "container_stack ctx' = [] \<and> clip_stack ctx' = [] \<and> id_stack ctx' = [] \<and>
         layout_stack ctx' = [] \<and> updated_focus ctx' = 0 \<and>
         command_idx ctx' = command_idx ctx \<and> length (root_list ctx') = length (root_list ctx)"
  using mu_end_Inr [OF assms] by (simp add: sort_roots_perm)

text \<open>The frame \<open>two_windows\<close> again, through \<open>mu_end\<close>.\<close>

theorem mu_end_stacks_witness:
  "map_sum id (\<lambda>c. (container_stack c, clip_stack c, id_stack c, layout_stack c, updated_focus c,
                     command_idx c, length (root_list c)))
     (process_frame two_windows window_ctx) = Inr ([], [], [], [], 0, 144, 2)"
proof -
  have "\<exists>c1 c2. mu_begin window_ctx = Inr c1 \<and> run_frame two_windows c1 = Inr c2 \<and>
          command_idx c2 = 144 \<and> length (root_list c2) = 2 \<and>
          (\<exists>c3. mu_end c2 = Inr c3)"
    by (simp add: two_windows_def frame_defs)
  then obtain c1 c2 c3 where b: "mu_begin window_ctx = Inr c1"
    and f: "run_frame two_windows c1 = Inr c2" and k: "command_idx c2 = 144"
    "length (root_list c2) = 2" and e: "mu_end c2 = Inr c3"
    by blast
  from mu_end_stacks [OF e] b f e k show ?thesis
    by (simp add: process_frame_def)
qed

text \<open>
  C2 as stated fails for the command list and the root list: after the \<open>mu_end\<close> of the
  frame \<open>two_windows\<close> the command list holds 144 bytes and the root list two containers,
  which \<open>mu_next_command\<close> is still to walk.
\<close>

theorem mu_end_stacks_counterexample:
  "map_sum id (\<lambda>c. (command_idx c, length (root_list c))) (process_frame two_windows window_ctx)
     = Inr (144, 2)"
  by (simp add: process_frame_def two_windows_def frame_defs)

lemma mu_update_control_pressed:
  "mu_update_control ctx ident r opt = Inr c \<Longrightarrow> mouse_pressed c = mouse_pressed ctx"
  by (auto simp: mu_update_control_def and_then_Inr Let_def mu_set_focus_def split: if_splits)

text \<open>
  C10.  \<open>mu_input_mouseup\<close> writes \<open>mouse_pos\<close> and clears the bits of \<open>btn\<close> in \<open>mouse_down\<close>,
  and nothing else.  After \<open>mu_input_mousedown\<close> and \<open>mu_input_mouseup\<close> of the same button
  the bits of \<open>btn\<close> are set in \<open>mouse_pressed\<close>.  They are still set after \<open>mu_begin\<close>, after
  any operations \<open>ops\<close> of the frame that follows (at every point of the frame, inside its
  windows too: \<open>ops\<close> need not close what they open), and after a \<open>mu_update_control\<close>
  there, the function through which the widgets read \<open>mouse_pressed\<close>.  \<open>mu_end\<close>, from any
  context, leaves \<open>mouse_pressed = 0\<close>.
\<close>

theorem mu_input_mouseup_keeps_pressed:
  "mu_input_mouseup ctx x y btn =
     ctx \<lparr> mouse_pos := mu_vec2 x y, mouse_down := mouse_down ctx AND NOT btn \<rparr> \<and>
   mouse_pressed (mu_input_mouseup (mu_input_mousedown ctx x y btn) x' y' btn) AND btn = btn \<and>
   (mu_begin (mu_input_mouseup (mu_input_mousedown ctx x y btn) x' y' btn) = Inr c1 \<longrightarrow>
      mouse_pressed c1 AND btn = btn \<and>
      (run_frame ops c1 = Inr c2 \<longrightarrow>
         mouse_pressed c2 AND btn = btn \<and>
         (mu_update_control c2 ident r opt = Inr c3 \<longrightarrow> mouse_pressed c3 AND btn = btn))) \<and>
   (mu_end c = Inr c' \<longrightarrow> mouse_pressed c' = 0)"
proof -
  have a: "mu_input_mouseup ctx x y btn =
           ctx \<lparr> mouse_pos := mu_vec2 x y, mouse_down := mouse_down ctx AND NOT btn \<rparr>"
    by (simp add: mu_input_mouseup_def mu_input_mousemove_def)
  have b: "mouse_pressed (mu_input_mouseup (mu_input_mousedown ctx x y btn) x' y' btn) AND btn = btn"
    by (simp add: mu_input_mouseup_def mu_input_mousedown_def mu_input_mousemove_def or_and_self)
  have c: "mouse_pressed c1 AND btn = btn"
    if "mu_begin (mu_input_mouseup (mu_input_mousedown ctx x y btn) x' y' btn) = Inr c1"
  proof -
    from that have "mouse_pressed c1 =
        mouse_pressed (mu_input_mouseup (mu_input_mousedown ctx x y btn) x' y' btn)"
      by (auto simp: mu_begin_def split: if_splits)
    with b show ?thesis by simp
  qed
  have d: "mouse_pressed c2 AND btn = btn"
    if "mouse_pressed c1 AND btn = btn" and "run_frame ops c1 = Inr c2"
    using run_frame_pressed [OF that(2)] that(1) by simp
  have e: "mouse_pressed c3 AND btn = btn"
    if "mouse_pressed c2 AND btn = btn" and "mu_update_control c2 ident r opt = Inr c3"
    using mu_update_control_pressed [OF that(2)] that(1) by simp
  have f: "mouse_pressed c' = 0" if "mu_end c = Inr c'"
    using mu_end_Inr(9) [OF that] .
  from a b c d e f show ?thesis by blast
qed

text \<open>A click of the left button before the frame \<open>two_windows\<close>: the press is there after
  the first four operations of the frame, inside the first window, where \<open>mu_end\<close> would
  fail its assertions, and it is gone after the \<open>mu_end\<close> of the whole frame.\<close>

theorem mu_input_mouseup_keeps_pressed_witness:
  "map_sum id mouse_pressed
     (and_then (mu_begin (mu_input_mouseup (mu_input_mousedown window_ctx 10 10 MU_MOUSE_LEFT)
                            10 10 MU_MOUSE_LEFT))
        (run_frame (take 4 two_windows))) = Inr MU_MOUSE_LEFT \<and>
   map_sum id mouse_pressed
     (process_frame two_windows
        (mu_input_mouseup (mu_input_mousedown window_ctx 10 10 MU_MOUSE_LEFT) 10 10 MU_MOUSE_LEFT))
     = Inr 0"
proof -
  have "\<exists>c1 c2 c4 c5.
      mu_begin (mu_input_mouseup (mu_input_mousedown window_ctx 10 10 MU_MOUSE_LEFT)
                  10 10 MU_MOUSE_LEFT) = Inr c1 \<and>
      run_frame (take 4 two_windows) c1 = Inr c2 \<and>
      run_frame two_windows c1 = Inr c4 \<and> mu_end c4 = Inr c5"
    by (simp add: two_windows_def frame_defs mu_input_mouseup_def mu_input_mousedown_def
        mu_input_mousemove_def MU_MOUSE_LEFT_def)
  then obtain c1 c2 c4 c5 where
    b: "mu_begin (mu_input_mouseup (mu_input_mousedown window_ctx 10 10 MU_MOUSE_LEFT)
                  10 10 MU_MOUSE_LEFT) = Inr c1"
    and f: "run_frame (take 4 two_windows) c1 = Inr c2"
    and g: "run_frame two_windows c1 = Inr c4" and e: "mu_end c4 = Inr c5"
    by blast
  have l: "MU_MOUSE_LEFT AND MU_MOUSE_LEFT = MU_MOUSE_LEFT" by simp
  have p0: "mouse_pressed c1 = MU_MOUSE_LEFT"
    using b by (auto simp: mu_begin_def mu_input_mouseup_def mu_input_mousedown_def
        mu_input_mousemove_def window_ctx_def mu_init_def split: if_splits)
  from run_frame_pressed [OF f] p0 have p2: "mouse_pressed c2 = MU_MOUSE_LEFT" by simp
  from mu_input_mouseup_keeps_pressed [of window_ctx 10 10 MU_MOUSE_LEFT 10 10 c1
      "take 4 two_windows" c2 _ _ _ _ c4 c5] b f e
  have "mouse_pressed c2 AND MU_MOUSE_LEFT = MU_MOUSE_LEFT" "mouse_pressed c5 = 0"
    by simp_all
  with p2 b f g e show ?thesis
    by (simp add: process_frame_def)
qed

end
